theory Spec2Isabelle
  imports Complex_Main "HOL-Library.Log_Nat" "HOL-Library.AList"
begin

section \<open>The recurring payment stream engine of SevaStream\<close>

text \<open>
  The engine lives in the React hook \<open>useX402\<close> (frontend/src/hooks/useX402.ts), with a
  second fee helper in the donor portal component and a stream registry in the backend's
  socket service. Amounts, intervals and totals are JavaScript numbers, that is IEEE 754
  binary64 values, and every arithmetic operation of the code rounds to the nearest such
  value. The model below does the same.
\<close>

subsection \<open>JavaScript numbers\<close>

text \<open>
  A number is a finite value, an infinity or NaN. Finite values are carried as rationals;
  the operations produce only rationals that binary64 represents. The two zeros of
  binary64 are not told apart (the code never divides by a computed zero whose sign could
  matter). Clock readings are integers far below \<open>2^53\<close>, so they are numbers as they are.
\<close>

datatype jsnum = Fin rat | PInf | NInf | NaN

text \<open>Rounding to the nearest integer, ties to even.\<close>

definition rne :: "rat \<Rightarrow> int" where
  "rne x =
     (let f = \<lfloor>x\<rfloor>; r = x - of_int f
      in if r < 1 / 2 then f else if 1 / 2 < r then f + 1 else if even f then f else f + 1)"

text \<open>For positive \<open>x\<close>, the exponent \<open>e\<close> with \<open>2^e \<le> x < 2^(e+1)\<close>.\<close>

definition ilog2 :: "rat \<Rightarrow> int" where
  "ilog2 x = (if 1 \<le> x then bitlen \<lfloor>x\<rfloor> - 1 else - bitlen (\<lceil>1 / x\<rceil> - 1))"

text \<open>
  The spacing of binary64 values around a positive \<open>x\<close>: 53 significant bits, and never
  finer than the subnormal spacing \<open>2^-1074\<close>.
\<close>

definition qexp :: "rat \<Rightarrow> int" where
  "qexp x = max (ilog2 x - 52) (- 1074)"

definition quantum :: "rat \<Rightarrow> rat" where
  "quantum x = 2 powi qexp x"

definition round_pos :: "rat \<Rightarrow> rat" where
  "round_pos x = of_int (rne (x / quantum x)) * quantum x"

text \<open>
  The binary64 value of an exact result: round to nearest, ties to even, and overflow to
  an infinity from \<open>2^1024\<close> on.
\<close>

definition fl :: "rat \<Rightarrow> jsnum" where
  "fl x =
     (if x = 0 then Fin 0
      else if 0 < x then (if 2 ^ 1024 \<le> round_pos x then PInf else Fin (round_pos x))
      else (if 2 ^ 1024 \<le> round_pos (- x) then NInf else Fin (- round_pos (- x))))"

text \<open>The comparison \<open>a <= b\<close>; every comparison with NaN is false.\<close>

fun js_le :: "jsnum \<Rightarrow> jsnum \<Rightarrow> bool" where
  "js_le NaN _ = False"
| "js_le _ NaN = False"
| "js_le NInf _ = True"
| "js_le _ PInf = True"
| "js_le (Fin a) (Fin b) = (a \<le> b)"
| "js_le (Fin a) NInf = False"
| "js_le PInf (Fin b) = False"
| "js_le PInf NInf = False"

text \<open>The comparison \<open>x > 0\<close>.\<close>

fun js_gt0 :: "jsnum \<Rightarrow> bool" where
  "js_gt0 (Fin a) = (0 < a)"
| "js_gt0 PInf = True"
| "js_gt0 NInf = False"
| "js_gt0 NaN = False"

fun js_neg :: "jsnum \<Rightarrow> jsnum" where
  "js_neg (Fin a) = Fin (- a)"
| "js_neg PInf = NInf"
| "js_neg NInf = PInf"
| "js_neg NaN = NaN"

fun js_add :: "jsnum \<Rightarrow> jsnum \<Rightarrow> jsnum" where
  "js_add NaN _ = NaN"
| "js_add _ NaN = NaN"
| "js_add (Fin a) (Fin b) = fl (a + b)"
| "js_add PInf NInf = NaN"
| "js_add NInf PInf = NaN"
| "js_add PInf _ = PInf"
| "js_add _ PInf = PInf"
| "js_add NInf _ = NInf"
| "js_add _ NInf = NInf"

definition js_sub :: "jsnum \<Rightarrow> jsnum \<Rightarrow> jsnum" where
  "js_sub a b = js_add a (js_neg b)"

fun js_mul :: "jsnum \<Rightarrow> jsnum \<Rightarrow> jsnum" where
  "js_mul NaN _ = NaN"
| "js_mul _ NaN = NaN"
| "js_mul (Fin a) (Fin b) = fl (a * b)"
| "js_mul PInf (Fin b) = (if 0 < b then PInf else if b < 0 then NInf else NaN)"
| "js_mul NInf (Fin b) = (if 0 < b then NInf else if b < 0 then PInf else NaN)"
| "js_mul (Fin a) PInf = (if 0 < a then PInf else if a < 0 then NInf else NaN)"
| "js_mul (Fin a) NInf = (if 0 < a then NInf else if a < 0 then PInf else NaN)"
| "js_mul PInf PInf = PInf"
| "js_mul PInf NInf = NInf"
| "js_mul NInf PInf = NInf"
| "js_mul NInf NInf = PInf"

fun js_div :: "jsnum \<Rightarrow> jsnum \<Rightarrow> jsnum" where
  "js_div NaN _ = NaN"
| "js_div _ NaN = NaN"
| "js_div (Fin a) (Fin b) =
     (if b \<noteq> 0 then fl (a / b)
      else if 0 < a then PInf
      else if a < 0 then NInf
      else NaN)"
| "js_div (Fin a) PInf = Fin 0"
| "js_div (Fin a) NInf = Fin 0"
| "js_div PInf (Fin b) = (if 0 \<le> b then PInf else NInf)"
| "js_div NInf (Fin b) = (if 0 \<le> b then NInf else PInf)"
| "js_div PInf PInf = NaN"
| "js_div PInf NInf = NaN"
| "js_div NInf PInf = NaN"
| "js_div NInf NInf = NaN"

text \<open>\<open>Math.max\<close> of two arguments: NaN as soon as one of them is.\<close>

fun js_max :: "jsnum \<Rightarrow> jsnum \<Rightarrow> jsnum" where
  "js_max NaN _ = NaN"
| "js_max _ NaN = NaN"
| "js_max PInf _ = PInf"
| "js_max _ PInf = PInf"
| "js_max NInf b = b"
| "js_max a NInf = a"
| "js_max (Fin a) (Fin b) = Fin (max a b)"

text \<open>\<open>Math.floor\<close>; the floor of a binary64 value is one, so nothing is rounded.\<close>

fun js_floor :: "jsnum \<Rightarrow> jsnum" where
  "js_floor (Fin a) = Fin (of_int \<lfloor>a\<rfloor>)"
| "js_floor x = x"

subsection \<open>Fee helpers\<close>

text \<open>
  useX402.ts, \<open>calculateX402Fee\<close>: \<open>Math.max(0.01, amount * 0.001)\<close>. A decimal literal
  denotes the binary64 value nearest to it.
\<close>

definition calculateX402Fee :: "jsnum \<Rightarrow> jsnum" where
  "calculateX402Fee amount = js_max (fl (1 / 100)) (js_mul amount (fl (1 / 1000)))"

text \<open>The donor portal's local helper of the same name: \<open>amount * 0.001\<close>, no floor.\<close>

definition portal_calculateX402Fee :: "jsnum \<Rightarrow> jsnum" where
  "portal_calculateX402Fee amount = js_mul amount (fl (1 / 1000))"

text \<open>USDCBalanceDemo.tsx, \<open>calculateFx02Fee\<close>: \<open>amount * 0.02\<close>.\<close>

definition calculateFx02Fee :: "jsnum \<Rightarrow> jsnum" where
  "calculateFx02Fee amount = js_mul amount (fl (2 / 100))"

subsection \<open>The hook's state\<close>

text \<open>
  \<open>X402Stream\<close>, with the timer handle that \<open>startPaymentStream\<close> attaches to the object
  as \<open>intervalId\<close>. Times are milliseconds as \<open>Date.now()\<close> gives them.
\<close>

record X402Stream =
  id :: string
  amount :: jsnum
  interval :: jsnum
  recipient :: string
  isActive :: bool
  totalSent :: jsnum
  startTime :: int
  intervalId :: nat

text \<open>
  A running \<open>setInterval\<close> timer with what its callback closes over, and a payment whose
  \<open>processPayment\<close> promise is still pending (the callback is suspended at its \<open>await\<close>).
\<close>

record timer =
  timerId :: nat
  timerStream :: string
  timerAmount :: jsnum
  timerRecipient :: string

record hook =
  activeStreams :: "X402Stream list"
  isProcessing :: bool
  timers :: "timer list"
  inflight :: "(string \<times> jsnum) list"
  nextIntervalId :: nat

text \<open>Browsers hand out positive timer handles, so a handle is always truthy.\<close>

definition init :: hook where
  "init = \<lparr>activeStreams = [], isProcessing = False, timers = [], inflight = [],
            nextIntervalId = 1\<rparr>"

definition clearInterval :: "nat \<Rightarrow> timer list \<Rightarrow> timer list" where
  "clearInterval h ts = filter (\<lambda>t. timerId t \<noteq> h) ts"

text \<open>
  \<open>startPaymentStream(amount, recipient, intervalSeconds)\<close> (callers that leave the interval
  out get 10). The stream id is built from \<open>Date.now()\<close> and \<open>Math.random()\<close>, so it is an
  input here, like the clock. Nothing in the body throws, so the result is always the id
  (never \<open>null\<close>).
\<close>

definition startPaymentStream ::
  "string \<Rightarrow> int \<Rightarrow> jsnum \<Rightarrow> string \<Rightarrow> jsnum \<Rightarrow> hook \<Rightarrow> string option \<times> hook" where
  "startPaymentStream streamId now amt rcp intervalSeconds s =
     (let newStream = \<lparr>id = streamId, amount = amt, interval = intervalSeconds,
                        recipient = rcp, isActive = True, totalSent = Fin 0,
                        startTime = now, intervalId = nextIntervalId s\<rparr>;
          tm = \<lparr>timerId = nextIntervalId s, timerStream = streamId,
                 timerAmount = amt, timerRecipient = rcp\<rparr>
      in (Some streamId,
          s\<lparr>activeStreams := activeStreams s @ [newStream],
            timers := timers s @ [tm],
            nextIntervalId := Suc (nextIntervalId s)\<rparr>))"

text \<open>The timer callback up to its \<open>await\<close>: \<open>processPayment\<close> sets the busy flag.\<close>

definition tickBegin :: "timer \<Rightarrow> hook \<Rightarrow> hook" where
  "tickBegin t s =
     s\<lparr>isProcessing := True, inflight := inflight s @ [(timerStream t, timerAmount t)]\<rparr>"

text \<open>
  The rest of the callback, once the payment has settled with \<open>success = ok\<close>:
  \<open>processPayment\<close> clears the busy flag, and on success the stream's total is bumped by
  \<open>stream.totalSent + amount\<close>, a binary64 addition.
\<close>

definition addSent :: "string \<Rightarrow> jsnum \<Rightarrow> X402Stream \<Rightarrow> X402Stream" where
  "addSent streamId amt stream =
     (if id stream = streamId then stream\<lparr>totalSent := js_add (totalSent stream) amt\<rparr>
      else stream)"

definition tickEnd :: "string \<Rightarrow> jsnum \<Rightarrow> bool \<Rightarrow> hook \<Rightarrow> hook" where
  "tickEnd streamId amt ok s =
     (let s1 = s\<lparr>isProcessing := False, inflight := remove1 (streamId, amt) (inflight s)\<rparr>
      in if ok then s1\<lparr>activeStreams := map (addSent streamId amt) (activeStreams s1)\<rparr>
         else s1)"

text \<open>\<open>stopPaymentStream(streamId)\<close>.\<close>

definition deactivate :: "string \<Rightarrow> X402Stream \<Rightarrow> X402Stream" where
  "deactivate streamId s = (if id s = streamId then s\<lparr>isActive := False\<rparr> else s)"

definition stopPaymentStream :: "string \<Rightarrow> hook \<Rightarrow> hook" where
  "stopPaymentStream streamId s =
     (let ts = (case find (\<lambda>x. id x = streamId) (activeStreams s) of
                  Some stream \<Rightarrow>
                    if intervalId stream \<noteq> 0 then clearInterval (intervalId stream) (timers s)
                    else timers s
                | None \<Rightarrow> timers s)
      in s\<lparr>activeStreams := map (deactivate streamId) (activeStreams s), timers := ts\<rparr>)"

text \<open>\<open>getAllStreams\<close>, also the \<open>activeStreams\<close> the hook exposes.\<close>

definition getAllStreams :: "hook \<Rightarrow> X402Stream list" where
  "getAllStreams s = filter isActive (activeStreams s)"

definition getTotalStreamAmount :: "hook \<Rightarrow> jsnum" where
  "getTotalStreamAmount s =
     foldl (\<lambda>total stream. js_add total (amount stream)) (Fin 0) (getAllStreams s)"

text \<open>\<open>getStreamStats(streamId)\<close>, read at clock value \<open>now\<close>; \<open>None\<close> is \<open>null\<close>.\<close>

record stats =
  statsStreamId :: string
  runtime :: jsnum
  statsTotalSent :: jsnum
  expectedPayments :: jsnum
  actualPayments :: jsnum
  successRate :: jsnum
  statsIsActive :: bool

definition getStreamStats :: "int \<Rightarrow> hook \<Rightarrow> string \<Rightarrow> stats option" where
  "getStreamStats now s streamId =
     (case find (\<lambda>x. id x = streamId) (activeStreams s) of
        None \<Rightarrow> None
      | Some stream \<Rightarrow>
          (let rt = js_sub (Fin (of_int now)) (Fin (of_int (startTime stream)));
               expected = js_floor (js_div rt (js_mul (interval stream) (Fin 1000)));
               actual = js_div (totalSent stream) (amount stream)
           in Some \<lparr>statsStreamId = streamId,
                    runtime = js_div rt (Fin 1000),
                    statsTotalSent = totalSent stream,
                    expectedPayments = expected,
                    actualPayments = actual,
                    successRate = (if js_gt0 expected
                                   then js_mul (js_div actual expected) (Fin 100)
                                   else Fin 0),
                    statsIsActive = isActive stream\<rparr>))"

subsection \<open>Runs of the hook\<close>

text \<open>
  What can happen to the hook: a caller starts or stops a stream, a timer fires, or a
  pending payment settles. An event that cannot happen in a state (no such timer, no such
  pending payment) has no successor.
\<close>

datatype event =
    Start string int jsnum string jsnum
  | Fire nat
  | Settle string jsnum bool
  | Stop string

fun step :: "hook \<Rightarrow> event \<Rightarrow> hook option" where
  "step s (Start streamId now amt rcp ivl) =
     Some (snd (startPaymentStream streamId now amt rcp ivl s))"
| "step s (Fire h) =
     (case find (\<lambda>t. timerId t = h) (timers s) of
        None \<Rightarrow> None
      | Some t \<Rightarrow> Some (tickBegin t s))"
| "step s (Settle streamId amt ok) =
     (if (streamId, amt) \<in> set (inflight s) then Some (tickEnd streamId amt ok s) else None)"
| "step s (Stop streamId) = Some (stopPaymentStream streamId s)"

fun run :: "hook \<Rightarrow> event list \<Rightarrow> hook option" where
  "run s [] = Some s"
| "run s (e # es) = (case step s e of None \<Rightarrow> None | Some s' \<Rightarrow> run s' es)"

text \<open>The ids handed to \<open>startPaymentStream\<close> in a run, and a stream's successful ticks.\<close>

fun startIds :: "event list \<Rightarrow> string list" where
  "startIds [] = []"
| "startIds (Start streamId now amt rcp ivl # es) = streamId # startIds es"
| "startIds (e # es) = startIds es"

fun successCount :: "string \<Rightarrow> event list \<Rightarrow> nat" where
  "successCount streamId [] = 0"
| "successCount streamId (Settle sid amt ok # es) =
     (if sid = streamId \<and> ok then Suc (successCount streamId es) else successCount streamId es)"
| "successCount streamId (e # es) = successCount streamId es"

text \<open>What \<open>n\<close> successful ticks add up to: \<open>n\<close> binary64 additions of the amount to 0.\<close>

fun sumSent :: "nat \<Rightarrow> jsnum \<Rightarrow> jsnum" where
  "sumSent 0 a = Fin 0"
| "sumSent (Suc n) a = js_add (sumSent n a) a"

subsection \<open>The backend's stream registry\<close>

text \<open>
  socketService.ts: the \<open>activeStreams\<close> map, kept in insertion order as a JavaScript
  \<open>Map\<close> keeps it, the handlers that \<open>initializeSocket\<close> registers on a connected
  socket (\<open>serve\<close> is what the server does with one request), and the timer that broadcasts a
  made-up donation in development mode. A message goes to every client (\<open>io.emit\<close>) or to
  the sender (\<open>socket.emit\<close>). The time stamps that the handlers put into some messages are
  left out.
\<close>

datatype status = active | paused | completed

record DonationStream =
  dsId :: string
  dsDonor :: string
  dsRecipient :: string
  dsAmount :: jsnum
  dsCause :: string
  dsStatus :: status
  dsStartTime :: int

datatype emitted =
    ActiveStreams "DonationStream list"
  | NewDonationStream DonationStream
  | StreamStarted string status
  | DonationStreamCompleted DonationStream
  | StreamStopped string status
  | RealTimeDonation string string jsnum string
  | UrgentNeed string string string string jsnum
  | SimulatedDonation string jsnum string string string

datatype target = Everyone | Sender

type_synonym registry = "(string \<times> DonationStream) list"

datatype request =
    Connection
  | StartDonationStream int string string string jsnum string
  | StopDonationStream string
  | DonationEvent string string jsnum string
  | UrgentNeedAlert string string string string jsnum
  | Disconnect
  | SimulatedActivity string jsnum string string string

fun serve :: "registry \<Rightarrow> request \<Rightarrow> registry \<times> (target \<times> emitted) list" where
  "serve reg Connection = (reg, [(Sender, ActiveStreams (map snd reg))])"
| "serve reg (StartDonationStream now streamId dnr rcp amt cse) =
     (let stream = \<lparr>dsId = streamId, dsDonor = dnr, dsRecipient = rcp, dsAmount = amt,
                     dsCause = cse, dsStatus = active, dsStartTime = now\<rparr>
      in (AList.update streamId stream reg,
          [(Everyone, NewDonationStream stream), (Sender, StreamStarted streamId active)]))"
| "serve reg (StopDonationStream streamId) =
     (case map_of reg streamId of
        Some stream \<Rightarrow>
          (AList.delete streamId reg,
           [(Everyone, DonationStreamCompleted (stream\<lparr>dsStatus := completed\<rparr>)),
            (Sender, StreamStopped streamId completed)])
      | None \<Rightarrow> (reg, []))"
| "serve reg (DonationEvent tp streamId amt txHash) =
     (reg, [(Everyone, RealTimeDonation tp streamId amt txHash)])"
| "serve reg (UrgentNeedAlert needId title location urgency amt) =
     (reg, [(Everyone, UrgentNeed needId title location urgency amt)])"
| "serve reg Disconnect = (reg, [])"
| "serve reg (SimulatedActivity dnr amt cse location txHash) =
     (reg, [(Everyone, SimulatedDonation dnr amt cse location txHash)])"

fun serveAll :: "registry \<Rightarrow> request list \<Rightarrow> registry" where
  "serveAll reg [] = reg"
| "serveAll reg (rq # rqs) = serveAll (fst (serve reg rq)) rqs"

subsection \<open>Sample states\<close>

text \<open>One stream of 8 every 10 seconds, just started at time 0.\<close>

definition demo_started :: hook where
  "demo_started = snd (startPaymentStream ''s1'' 0 (Fin 8) ''cause-1'' (Fin 10) init)"

text \<open>The same stream with its first payment pending.\<close>

definition demo_pending :: hook where
  "demo_pending = tickBegin \<lparr>timerId = 1, timerStream = ''s1'', timerAmount = Fin 8,
                              timerRecipient = ''cause-1''\<rparr> demo_started"

text \<open>An active stream in the backend's registry.\<close>

definition demo_donation :: DonationStream where
  "demo_donation = \<lparr>dsId = ''s1'', dsDonor = ''donor'', dsRecipient = ''ngo'',
                     dsAmount = Fin 8, dsCause = ''water'', dsStatus = active,
                     dsStartTime = 0\<rparr>"

text \<open>A stream of 0.1 every 10 seconds whose first six ticks all succeed.\<close>

definition tenth :: jsnum where
  "tenth = fl (1 / 10)"

definition six_ticks :: "event list" where
  "six_ticks =
     [Start ''s1'' 0 tenth ''cause-1'' (Fin 10),
      Fire 1, Settle ''s1'' tenth True, Fire 1, Settle ''s1'' tenth True,
      Fire 1, Settle ''s1'' tenth True, Fire 1, Settle ''s1'' tenth True,
      Fire 1, Settle ''s1'' tenth True, Fire 1, Settle ''s1'' tenth True]"

subsection \<open>Invariants of a run\<close>

text \<open>
  Every timer and every pending payment belongs to a stream of the list, carrying that
  stream's amount; stream ids are pairwise different; timer handles are truthy.
\<close>

definition linked :: "hook \<Rightarrow> bool" where
  "linked s \<longleftrightarrow>
     distinct (map id (activeStreams s)) \<and>
     (\<forall>t\<in>set (timers s). \<exists>x\<in>set (activeStreams s).
        id x = timerStream t \<and> amount x = timerAmount t \<and> intervalId x = timerId t) \<and>
     (\<forall>p\<in>set (inflight s). \<exists>x\<in>set (activeStreams s). id x = fst p \<and> amount x = snd p) \<and>
     (\<forall>x\<in>set (activeStreams s). intervalId x \<noteq> 0) \<and>
     nextIntervalId s \<noteq> 0"

text \<open>The totals are the sums of the successful ticks of the run that led to the state.\<close>

definition accounted :: "event list \<Rightarrow> hook \<Rightarrow> bool" where
  "accounted tr s \<longleftrightarrow>
     (\<forall>x\<in>set (activeStreams s). totalSent x = sumSent (successCount (id x) tr) (amount x))"

text \<open>The payments of a stream that are still pending.\<close>

definition pending :: "string \<Rightarrow> hook \<Rightarrow> nat" where
  "pending sid s = length (filter (\<lambda>p. fst p = sid) (inflight s))"

text \<open>A stream that has no timer left and is inactive.\<close>

definition quiet :: "string \<Rightarrow> hook \<Rightarrow> bool" where
  "quiet sid s \<longleftrightarrow>
     (\<forall>t\<in>set (timers s). timerStream t \<noteq> sid) \<and>
     (\<forall>x\<in>set (activeStreams s). id x = sid \<longrightarrow> \<not> isActive x)"

section \<open>Properties of the rounding\<close>

lemma rne_bounds: "\<lfloor>x\<rfloor> \<le> rne x \<and> rne x \<le> \<lfloor>x\<rfloor> + 1"
  by (simp add: rne_def Let_def)

lemma rne_same_floor:
  assumes "\<lfloor>x\<rfloor> = \<lfloor>y\<rfloor>" and "x \<le> y"
  shows "rne x \<le> rne y"
  using assms by (auto simp: rne_def Let_def)

lemma rne_mono:
  assumes "x \<le> y"
  shows "rne x \<le> rne y"
proof (cases "\<lfloor>x\<rfloor> = \<lfloor>y\<rfloor>")
  case True
  then show ?thesis using assms by (rule rne_same_floor)
next
  case False
  with assms have "\<lfloor>x\<rfloor> < \<lfloor>y\<rfloor>" using floor_mono [of x y] by linarith
  with rne_bounds [of x] rne_bounds [of y] show ?thesis by linarith
qed

lemma rne_of_int [simp]: "rne (of_int n) = n"
  by (simp add: rne_def)

lemma ilog2_bounds:
  assumes "0 < x"
  shows "2 powi ilog2 x \<le> x \<and> x < 2 powi (ilog2 x + 1)"
proof (cases "1 \<le> x")
  case True
  define n where "n = \<lfloor>x\<rfloor>"
  from True have n: "0 < n" by (simp add: n_def)
  from n have b1: "1 \<le> bitlen n" by (simp add: bitlen_alt_def)
  from bitlen_bounds [OF n] have lo: "2 ^ nat (bitlen n - 1) \<le> n" and hi: "n < 2 ^ nat (bitlen n)"
    by simp_all
  have e: "ilog2 x = bitlen n - 1" using True by (simp add: ilog2_def n_def)
  have "(2::rat) powi (bitlen n - 1) = of_int (2 ^ nat (bitlen n - 1))"
    using b1 by (simp add: power_int_nonneg_exp)
  also have "\<dots> \<le> of_int n" using lo by (simp only: of_int_le_iff)
  also have "\<dots> \<le> x" by (simp add: n_def)
  finally have l: "2 powi ilog2 x \<le> x" by (simp add: e)
  from hi have "n + 1 \<le> 2 ^ nat (bitlen n)" by simp
  then have "(of_int (n + 1) :: rat) \<le> of_int (2 ^ nat (bitlen n))" by (simp only: of_int_le_iff)
  moreover have "x < of_int (n + 1)" using floor_correct [of x] by (simp add: n_def)
  moreover have "(2::rat) powi (bitlen n) = of_int (2 ^ nat (bitlen n))"
    using b1 by (simp add: power_int_nonneg_exp)
  ultimately have "x < 2 powi (ilog2 x + 1)" by (simp add: e)
  with l show ?thesis by simp
next
  case False
  with assms have x1: "x < 1" by simp
  define m where "m = \<lceil>1 / x\<rceil> - 1"
  define k where "k = bitlen m"
  from assms x1 have "1 < 1 / x" by simp
  then have "1 < \<lceil>1 / x\<rceil>" by (simp add: less_ceiling_iff)
  then have m: "0 < m" by (simp add: m_def)
  from m have k1: "1 \<le> k" by (simp add: bitlen_alt_def k_def)
  from bitlen_bounds [OF m] have lo: "2 ^ nat (k - 1) \<le> m" and hi: "m < 2 ^ nat k"
    by (simp_all add: k_def)
  have e: "ilog2 x = - k" using False by (simp add: ilog2_def m_def k_def)
  have pk: "(2::rat) powi k = of_int (2 ^ nat k)" using k1 by (simp add: power_int_nonneg_exp)
  have pk1: "(2::rat) powi (k - 1) = of_int (2 ^ nat (k - 1))"
    using k1 by (simp add: power_int_nonneg_exp)
  from hi have "m + 1 \<le> 2 ^ nat k" by simp
  then have "(of_int (m + 1) :: rat) \<le> 2 powi k" unfolding pk by (simp only: of_int_le_iff)
  moreover have "1 / x \<le> of_int (m + 1)" by (simp add: m_def)
  ultimately have u: "1 / x \<le> 2 powi k" by linarith
  have pos: "(0::rat) < 2 powi k" by simp
  from u assms pos have "1 \<le> 2 powi k * x" by (simp add: field_simps)
  then have l: "2 powi (- k) \<le> x"
    using pos by (simp add: power_int_minus field_simps)
  have "(of_int m :: rat) < 1 / x" using ceiling_correct [of "1 / x"] by (simp add: m_def)
  moreover from lo have "(2::rat) powi (k - 1) \<le> of_int m" unfolding pk1 by (simp only: of_int_le_iff)
  ultimately have v: "2 powi (k - 1) < 1 / x" by linarith
  have pos1: "(0::rat) < 2 powi (k - 1)" by simp
  from v assms pos1 have "2 powi (k - 1) * x < 1" by (simp add: field_simps)
  then have "x < 1 / 2 powi (k - 1)"
    using pos1 by (simp add: pos_less_divide_eq mult.commute)
  also have "1 / (2::rat) powi (k - 1) = 2 powi (- (k - 1))"
    by (simp only: power_int_minus_divide)
  finally have "x < 2 powi (- k + 1)" by (simp add: algebra_simps)
  with l show ?thesis by (simp add: e)
qed

lemma powi2_less_cancel: "(2::rat) powi a < 2 powi b \<Longrightarrow> a < b"
  by (rule ccontr) (simp add: not_less power_int_increasing leD)

lemma ilog2_mono:
  assumes "0 < x" and "x \<le> y"
  shows "ilog2 x \<le> ilog2 y"
proof -
  from assms have y: "0 < y" by simp
  from ilog2_bounds [OF assms(1)] ilog2_bounds [OF y] assms(2)
  have "(2::rat) powi ilog2 x < 2 powi (ilog2 y + 1)" by linarith
  from powi2_less_cancel [OF this] show ?thesis by simp
qed

lemma ilog2_unique:
  assumes "2 powi e \<le> x" and "x < 2 powi (e + 1)"
  shows "ilog2 x = e"
proof -
  have "(0::rat) < 2 powi e" by simp
  with assms(1) have x: "0 < x" by linarith
  from ilog2_bounds [OF x] assms
  have "(2::rat) powi e < 2 powi (ilog2 x + 1)" "(2::rat) powi ilog2 x < 2 powi (e + 1)"
    by linarith+
  from powi2_less_cancel [OF this(1)] powi2_less_cancel [OF this(2)] show ?thesis by simp
qed

lemma quantum_pos [simp]: "0 < quantum x"
  by (simp add: quantum_def)

lemma quantum_nonzero [simp]: "quantum x \<noteq> 0"
  by (simp add: quantum_def)

lemma quantum_nonneg [simp]: "0 \<le> quantum x"
  by (simp add: quantum_def)

lemma qexp_ge: "- 1074 \<le> qexp x" "ilog2 x - 52 \<le> qexp x"
  by (simp_all add: qexp_def)

lemma qexp_mono: "0 < x \<Longrightarrow> x \<le> y \<Longrightarrow> qexp x \<le> qexp y"
  using ilog2_mono [of x y] by (simp add: qexp_def)

lemma powi2_shift: "(2::rat) ^ n * 2 powi k = 2 powi (k + int n)"
  by (simp add: power_int_add)

lemma below_top:
  assumes "0 < x"
  shows "x < 2 ^ 53 * quantum x"
proof -
  have "ilog2 x + 1 \<le> qexp x + 53" using qexp_ge(2) [of x] by simp
  then have "(2::rat) powi (ilog2 x + 1) \<le> 2 powi (qexp x + 53)"
    by (simp add: power_int_increasing)
  with ilog2_bounds [OF assms] have "x < 2 powi (qexp x + 53)" by linarith
  then show ?thesis using powi2_shift [of 53 "qexp x"] by (simp add: quantum_def)
qed

lemma above_bottom:
  assumes "0 < y" and "- 1074 < qexp y"
  shows "2 ^ 52 * quantum y \<le> y"
proof -
  from assms(2) have "qexp y = ilog2 y - 52" by (simp add: qexp_def max_def split: if_splits)
  then have "(2::rat) ^ 52 * quantum y = 2 powi ilog2 y"
    using powi2_shift [of 52 "qexp y"] by (simp add: quantum_def)
  with ilog2_bounds [OF assms(1)] show ?thesis by simp
qed

lemma round_pos_nonneg: "0 < x \<Longrightarrow> 0 \<le> round_pos x"
proof -
  assume "0 < x"
  then have "0 \<le> x / quantum x" by (intro divide_nonneg_pos) simp_all
  then have "rne 0 \<le> rne (x / quantum x)" by (rule rne_mono)
  then have "0 \<le> rne (x / quantum x)" using rne_of_int [of 0] by simp
  then show ?thesis by (simp add: round_pos_def)
qed

lemma round_pos_le_top:
  assumes "0 < x"
  shows "round_pos x \<le> 2 ^ 53 * quantum x"
proof -
  from below_top [OF assms] have "x / quantum x \<le> 2 ^ 53"
    by (simp add: pos_divide_le_eq)
  then have "rne (x / quantum x) \<le> rne (of_int (2 ^ 53))"
    by (intro rne_mono) simp
  then have "rne (x / quantum x) \<le> 2 ^ 53" by (simp only: rne_of_int)
  then have "(of_int (rne (x / quantum x)) :: rat) \<le> of_int (2 ^ 53)"
    by (simp only: of_int_le_iff)
  then show ?thesis by (simp add: round_pos_def)
qed

lemma round_pos_ge_bottom:
  assumes "0 < y" and "- 1074 < qexp y"
  shows "2 ^ 52 * quantum y \<le> round_pos y"
proof -
  from above_bottom [OF assms] have "2 ^ 52 \<le> y / quantum y"
    by (simp add: pos_le_divide_eq)
  then have "rne (of_int (2 ^ 52)) \<le> rne (y / quantum y)"
    by (intro rne_mono) simp
  then have "2 ^ 52 \<le> rne (y / quantum y)" by (simp only: rne_of_int)
  then have "(of_int (2 ^ 52) :: rat) \<le> of_int (rne (y / quantum y))"
    by (simp only: of_int_le_iff)
  then show ?thesis by (simp add: round_pos_def)
qed

lemma round_pos_mono:
  assumes "0 < x" and "x \<le> y"
  shows "round_pos x \<le> round_pos y"
proof (cases "qexp x = qexp y")
  case True
  then have q: "quantum x = quantum y" by (simp add: quantum_def)
  from assms(2) have "x / quantum y \<le> y / quantum y"
    by (intro divide_right_mono) (simp_all add: less_imp_le)
  then have "rne (x / quantum y) \<le> rne (y / quantum y)" by (rule rne_mono)
  then have "(of_int (rne (x / quantum y)) :: rat) \<le> of_int (rne (y / quantum y))"
    by (simp only: of_int_le_iff)
  then show ?thesis by (simp add: round_pos_def q)
next
  case False
  with qexp_mono [OF assms] have lt: "qexp x + 1 \<le> qexp y" by simp
  from assms have y: "0 < y" by simp
  from lt qexp_ge(1) [of x] have "- 1074 < qexp y" by simp
  from round_pos_ge_bottom [OF y this] have lo: "2 ^ 52 * quantum y \<le> round_pos y" .
  have "(2::rat) ^ 53 * quantum x = 2 powi (qexp x + 53)"
    using powi2_shift [of 53 "qexp x"] by (simp add: quantum_def)
  also have "\<dots> \<le> 2 powi (qexp y + 52)" using lt by (simp add: power_int_increasing)
  also have "\<dots> = 2 ^ 52 * quantum y"
    using powi2_shift [of 52 "qexp y"] by (simp add: quantum_def)
  finally have "2 ^ 53 * quantum x \<le> 2 ^ 52 * quantum y" .
  with round_pos_le_top [OF assms(1)] lo show ?thesis by linarith
qed

lemma fl_not_NaN [simp]: "fl x \<noteq> NaN"
  by (simp add: fl_def)

lemma fl_mono:
  assumes "x \<le> y"
  shows "js_le (fl x) (fl y)"
proof -
  consider "0 < x" | "y < 0" | "x \<le> 0" "0 \<le> y" using assms by linarith
  then show ?thesis
  proof cases
    case 1
    with assms have "0 < y" by simp
    with 1 round_pos_mono [OF 1 assms] show ?thesis by (simp add: fl_def)
  next
    case 2
    with assms have x: "x < 0" by simp
    from 2 have "0 < - y" by simp
    moreover from assms have "- y \<le> - x" by simp
    ultimately have "round_pos (- y) \<le> round_pos (- x)" by (rule round_pos_mono)
    with 2 x show ?thesis by (simp add: fl_def)
  next
    case 3
    have a: "js_le (fl x) (Fin 0)"
      using 3(1) round_pos_nonneg [of "- x"] by (simp add: fl_def)
    have b: "js_le (Fin 0) (fl y)"
      using 3(2) round_pos_nonneg [of y] by (simp add: fl_def)
    from a b show ?thesis
      by (cases "fl x"; cases "fl y") simp_all
  qed
qed

lemma round_pos_exact:
  assumes "0 < r" and "r = of_int n * 2 powi k" and "qexp r \<le> k"
  shows "round_pos r = r"
proof -
  have "r / quantum r = of_int n * (2 powi k / 2 powi qexp r)" by (simp add: assms(2) quantum_def)
  also have "(2::rat) powi k / 2 powi qexp r = 2 powi (k - qexp r)"
    by (simp add: power_int_diff)
  also have "\<dots> = of_int (2 ^ nat (k - qexp r))"
    using assms(3) by (simp add: power_int_nonneg_exp)
  finally have "r / quantum r = of_int (n * 2 ^ nat (k - qexp r))" by simp
  then have "rne (r / quantum r) = n * 2 ^ nat (k - qexp r)" by (simp only: rne_of_int)
  then have "round_pos r = of_int (n * 2 ^ nat (k - qexp r)) * quantum r"
    by (simp add: round_pos_def)
  also have "\<dots> = r / quantum r * quantum r"
    using \<open>r / quantum r = of_int (n * 2 ^ nat (k - qexp r))\<close> by simp
  also have "\<dots> = r" by simp
  finally show ?thesis .
qed

lemma ilog2_below:
  assumes "0 < r" and "r < 2 powi m"
  shows "ilog2 r < m"
proof -
  from ilog2_bounds [OF assms(1)] assms(2) have "(2::rat) powi ilog2 r < 2 powi m" by linarith
  then show ?thesis by (rule powi2_less_cancel)
qed

lemma round_pos_idem:
  assumes "0 < x" and "0 < round_pos x"
  shows "round_pos (round_pos x) = round_pos x"
proof -
  define n where "n = rne (x / quantum x)"
  define r where "r = round_pos x"
  have r: "r = of_int n * 2 powi qexp x" by (simp add: r_def n_def round_pos_def quantum_def)
  have rpos: "0 < r" using assms(2) by (simp add: r_def)
  from round_pos_le_top [OF assms(1)] have top: "r \<le> 2 ^ 53 * quantum x" by (simp add: r_def)
  have t: "(2::rat) ^ 53 * quantum x = 2 powi (qexp x + 53)"
    using powi2_shift [of 53 "qexp x"] by (simp add: quantum_def)
  show ?thesis
  proof (cases "r = 2 ^ 53 * quantum x")
    case True
    then have rp: "r = 2 powi (qexp x + 53)" using t by simp
    have "ilog2 r = qexp x + 53"
      by (rule ilog2_unique) (simp_all add: rp power_int_strict_increasing)
    then have q: "qexp r = qexp x + 1" using qexp_ge(1) [of x] by (simp add: qexp_def)
    have "r = of_int (2 ^ 52) * 2 powi (qexp x + 1)"
      using powi2_shift [of 52 "qexp x + 1"] by (simp add: rp add.commute)
    from round_pos_exact [OF rpos this] q show ?thesis by (simp add: r_def)
  next
    case False
    with top t have "r < 2 powi (qexp x + 53)" by simp
    from ilog2_below [OF rpos this] have "ilog2 r - 52 \<le> qexp x" by simp
    with qexp_ge(1) [of x] have "qexp r \<le> qexp x" by (simp add: qexp_def)
    from round_pos_exact [OF rpos r this] show ?thesis by (simp add: r_def)
  qed
qed

lemma fl_idem:
  assumes "fl x = Fin r"
  shows "fl r = Fin r"
proof -
  consider "x = 0" | "0 < x" | "x < 0" by linarith
  then show ?thesis
  proof cases
    case 1
    with assms show ?thesis by (simp add: fl_def)
  next
    case 2
    with assms have r: "r = round_pos x" and small: "\<not> 2 ^ 1024 \<le> round_pos x"
      by (simp_all add: fl_def split: if_splits)
    show ?thesis
    proof (cases "r = 0")
      case True
      then show ?thesis by (simp add: fl_def)
    next
      case False
      with round_pos_nonneg [OF 2] r have "0 < round_pos x" by simp
      from round_pos_idem [OF 2 this] this small show ?thesis by (simp add: fl_def r)
    qed
  next
    case 3
    with assms have r: "r = - round_pos (- x)" and small: "\<not> 2 ^ 1024 \<le> round_pos (- x)"
      by (simp_all add: fl_def split: if_splits)
    from 3 have nx: "0 < - x" by simp
    show ?thesis
    proof (cases "r = 0")
      case True
      then show ?thesis by (simp add: fl_def)
    next
      case False
      with round_pos_nonneg [OF nx] r have p: "0 < round_pos (- x)" by simp
      from round_pos_idem [OF nx p] p small show ?thesis by (simp add: fl_def r)
    qed
  qed
qed

lemma qexp_int_small:
  assumes "0 < n" and "n < 2 ^ 53"
  shows "qexp (of_int n) \<le> 0"
proof -
  have "(of_int n :: rat) < of_int (2 ^ 53)" using assms(2) by (simp only: of_int_less_iff)
  then have "(of_int n :: rat) < 2 powi 53" by simp
  moreover have "(0::rat) < of_int n" using assms(1) by simp
  ultimately have "ilog2 (of_int n) < 53" by (rule ilog2_below [rotated])
  then show ?thesis by (simp add: qexp_def)
qed

lemma round_pos_int:
  assumes "0 < n" and "n \<le> 2 ^ 53"
  shows "round_pos (of_int n) = of_int n"
proof (cases "n = 2 ^ 53")
  case True
  have "ilog2 (of_int n) = 53"
    by (rule ilog2_unique) (simp_all add: True)
  then have q: "qexp (of_int n) = 1" by (simp add: qexp_def)
  have "(of_int n :: rat) = of_int (2 ^ 52) * 2 powi 1" by (simp add: True)
  moreover have "(0::rat) < of_int n" using assms(1) by simp
  ultimately show ?thesis using q by (intro round_pos_exact [where n = "2 ^ 52" and k = 1]) simp_all
next
  case False
  with assms(2) have "n < 2 ^ 53" by simp
  from qexp_int_small [OF assms(1) this] have "qexp (of_int n) \<le> 0" .
  moreover have "(of_int n :: rat) = of_int n * 2 powi 0" by simp
  moreover have "(0::rat) < of_int n" using assms(1) by simp
  ultimately show ?thesis by (intro round_pos_exact [where n = n and k = 0]) simp_all
qed

lemma fl_int:
  assumes "\<bar>n\<bar> \<le> 2 ^ 53"
  shows "fl (of_int n) = Fin (of_int n)"
proof -
  have big: "(2::rat) ^ 53 < 2 ^ 1024" by (rule power_strict_increasing) simp_all
  consider "n = 0" | "0 < n" | "n < 0" by linarith
  then show ?thesis
  proof cases
    case 1
    then show ?thesis by (simp add: fl_def)
  next
    case 2
    with assms have "n \<le> 2 ^ 53" by simp
    then have "(of_int n :: rat) \<le> of_int (2 ^ 53)" by (simp only: of_int_le_iff)
    with big have "\<not> (2::rat) ^ 1024 \<le> of_int n" by simp
    with round_pos_int [OF 2 \<open>n \<le> 2 ^ 53\<close>] 2 show ?thesis by (simp add: fl_def)
  next
    case 3
    with assms have le: "- n \<le> 2 ^ 53" and pos: "0 < - n" by simp_all
    from le have "(of_int (- n) :: rat) \<le> of_int (2 ^ 53)" by (simp only: of_int_le_iff)
    with big have "\<not> (2::rat) ^ 1024 \<le> of_int (- n)" by simp
    with round_pos_int [OF pos le] 3 show ?thesis by (simp add: fl_def)
  qed
qed

subsection \<open>Evaluating roundings\<close>

lemma floor_rat_numeral_div [simp]:
  "\<lfloor>(numeral a :: rat) / numeral b\<rfloor> = numeral a div numeral b"
  using floor_divide_of_int_eq [of "numeral a" "numeral b", where ?'a = rat] by simp

lemma floor_rat_neg_numeral_div [simp]:
  "\<lfloor>- ((numeral a :: rat) / numeral b)\<rfloor> = (- numeral a) div numeral b"
  using floor_divide_of_int_eq [of "- numeral a" "numeral b", where ?'a = rat] by simp

lemma ceiling_rat_numeral_div [simp]:
  "\<lceil>(numeral a :: rat) / numeral b\<rceil> = - ((- numeral a) div numeral b)"
  using floor_divide_of_int_eq [of "- numeral a" "numeral b", where ?'a = rat]
  by (simp add: ceiling_def)

lemma bitlen_numeral_eval: "bitlen (numeral n) = bitlen (numeral n div 2) + 1"
  by (subst compute_bitlen) simp

lemma bitlen_one [simp]: "bitlen 1 = 1"
  by (subst compute_bitlen) simp

lemmas fl_eval = fl_def round_pos_def quantum_def qexp_def ilog2_def rne_def
  bitlen_numeral_eval Let_def

lemma fl_zero [simp]: "fl 0 = Fin 0"
  by (simp add: fl_def)

lemma fl_numeral:
  "(numeral k :: int) \<le> 2 ^ 53 \<Longrightarrow> fl (numeral k) = Fin (numeral k)"
  using fl_int [of "numeral k"] by simp

lemma fl_neg_numeral:
  "(numeral k :: int) \<le> 2 ^ 53 \<Longrightarrow> fl (- numeral k) = Fin (- numeral k)"
  using fl_int [of "- numeral k"] by simp

lemma fl_one [simp]: "fl 1 = Fin 1"
  using fl_int [of 1] by simp

lemma fl_hundredth: "fl (1 / 100) = Fin (5764607523034235 / 2 ^ 59)"
  by (simp add: fl_eval)

lemma fl_thousandth: "fl (1 / 1000) = Fin (1152921504606847 / 2 ^ 60)"
  by (simp add: fl_eval)

lemma fl_ten_thousandths:
  "fl (10 * (1152921504606847 / 2 ^ 60)) = Fin (5764607523034235 / 2 ^ 59)"
  by (simp add: fl_eval)

lemma fl_tenth: "fl (1 / 10) = Fin (3602879701896397 / 2 ^ 55)"
  by (simp add: fl_eval)

subsection \<open>Order and the operations\<close>

lemma js_max_NaN_right [simp]: "js_max x NaN = NaN"
  by (cases x) simp_all

lemma js_le_NaN_right [simp]: "\<not> js_le x NaN"
  by (cases x) simp_all

lemma js_add_NaN_right [simp]: "js_add x NaN = NaN"
  by (cases x) simp_all

lemma js_mul_NaN_right [simp]: "js_mul x NaN = NaN"
  by (cases x) simp_all

lemma js_div_NaN_right [simp]: "js_div x NaN = NaN"
  by (cases x) simp_all

lemma js_le_refl: "x \<noteq> NaN \<Longrightarrow> js_le x x"
  by (cases x) simp_all

lemma js_le_not_NaN: "js_le x y \<Longrightarrow> x \<noteq> NaN \<and> y \<noteq> NaN"
  by (cases x; cases y) simp_all

lemma js_le_PInf: "x \<noteq> NaN \<Longrightarrow> js_le x PInf"
  by (cases x) simp_all

lemma js_le_NInf: "y \<noteq> NaN \<Longrightarrow> js_le NInf y"
  by (cases y) simp_all

lemma js_mul_pos_not_NaN: "b \<noteq> NaN \<Longrightarrow> 0 < d \<Longrightarrow> js_mul b (Fin d) \<noteq> NaN"
  by (cases b) simp_all

lemma js_mul_pos_mono:
  assumes "js_le a b" and "0 < d"
  shows "js_le (js_mul a (Fin d)) (js_mul b (Fin d))"
proof -
  from js_le_not_NaN [OF assms(1)] have nb: "b \<noteq> NaN" by simp
  show ?thesis
  proof (cases a)
    case (Fin x)
    show ?thesis
    proof (cases b)
      case (Fin y)
      with \<open>a = Fin x\<close> assms have "x * d \<le> y * d" by simp
      from fl_mono [OF this] \<open>a = Fin x\<close> Fin show ?thesis by simp
    next
      case PInf
      with \<open>a = Fin x\<close> assms(2) show ?thesis by (simp add: js_le_PInf)
    next
      case NInf
      with \<open>a = Fin x\<close> assms(1) show ?thesis by simp
    next
      case NaN
      with nb show ?thesis by simp
    qed
  next
    case PInf
    with assms(1) have "b = PInf" by (cases b) simp_all
    with PInf assms(2) show ?thesis by simp
  next
    case NInf
    with assms(2) js_mul_pos_not_NaN [OF nb assms(2)] show ?thesis by (simp add: js_le_NInf)
  next
    case NaN
    with assms(1) show ?thesis by simp
  qed
qed

lemma js_max_mono:
  assumes "js_le x y"
  shows "js_le (js_max (Fin c) x) (js_max (Fin c) y)"
  using assms by (cases x; cases y) simp_all

lemma js_max_ge: "y \<noteq> NaN \<Longrightarrow> js_le (Fin c) (js_max (Fin c) y)"
  by (cases y) simp_all

lemma js_max_absorb: "js_le y (Fin c) \<Longrightarrow> js_max (Fin c) y = Fin c"
  by (cases y) (simp_all add: max_def)

lemma js_max_absorb_left: "js_le (Fin c) y \<Longrightarrow> js_max (Fin c) y = y"
  by (cases y) (simp_all add: max_def)

lemma js_max_floor_nonneg: "js_le (Fin 0) m \<Longrightarrow> js_max m y = Fin v \<Longrightarrow> 0 \<le> v"
  by (cases m; cases y) (auto simp: max_def split: if_splits)

lemma js_max_Fin_not_NInf: "js_max (Fin m) y \<noteq> NInf"
  by (cases y) simp_all

section \<open>Fee properties\<close>

lemma thousandth_pos: "(0::rat) < 1152921504606847 / 2 ^ 60"
  by simp

lemma calculateX402Fee_NaN: "calculateX402Fee NaN = NaN"
  by (simp add: calculateX402Fee_def)

lemma portal_not_NaN: "a \<noteq> NaN \<Longrightarrow> portal_calculateX402Fee a \<noteq> NaN"
  unfolding portal_calculateX402Fee_def fl_thousandth
  by (rule js_mul_pos_not_NaN) simp_all

lemma portal_mono:
  "js_le a b \<Longrightarrow> js_le (portal_calculateX402Fee a) (portal_calculateX402Fee b)"
  unfolding portal_calculateX402Fee_def fl_thousandth
  by (rule js_mul_pos_mono) simp_all

lemma calculateX402Fee_portal:
  "calculateX402Fee a = js_max (fl (1 / 100)) (portal_calculateX402Fee a)"
  by (simp add: calculateX402Fee_def portal_calculateX402Fee_def)

lemma calculateX402Fee_mono:
  assumes "js_le a b"
  shows "js_le (calculateX402Fee a) (calculateX402Fee b)"
  unfolding calculateX402Fee_portal fl_hundredth
  by (rule js_max_mono) (rule portal_mono [OF assms])

lemma calculateX402Fee_floor:
  assumes "a \<noteq> NaN"
  shows "js_le (fl (1 / 100)) (calculateX402Fee a)"
  unfolding calculateX402Fee_portal fl_hundredth
  by (rule js_max_ge) (rule portal_not_NaN [OF assms])

lemma portal_ten: "portal_calculateX402Fee (Fin 10) = fl (1 / 100)"
proof -
  have "portal_calculateX402Fee (Fin 10) = fl (10 * (1152921504606847 / 2 ^ 60))"
    by (simp only: portal_calculateX402Fee_def fl_thousandth js_mul.simps)
  then show ?thesis by (simp only: fl_ten_thousandths fl_hundredth)
qed

lemma calculateX402Fee_small:
  assumes "js_le a (Fin 10)"
  shows "calculateX402Fee a = fl (1 / 100)"
proof -
  from portal_mono [OF assms] have "js_le (portal_calculateX402Fee a) (fl (1 / 100))"
    by (simp only: portal_ten)
  then show ?thesis
    unfolding calculateX402Fee_portal fl_hundredth by (rule js_max_absorb)
qed

text \<open>
  Claim C10, as stated, fails at one input, the amount NaN: \<open>Math.max(0.01, NaN * 0.001)\<close>
  is NaN, which is not at least 0.01.
\<close>

theorem C10_counterexample:
  "calculateX402Fee NaN = NaN \<and> \<not> js_le (fl (1 / 100)) (calculateX402Fee NaN)"
  by (simp add: calculateX402Fee_NaN)

text \<open>
  Claim C10, amended. For every amount other than NaN, zero, negative and infinite amounts
  included, the hook's \<open>calculateX402Fee\<close> returns at least 0.01 (the binary64 value of that
  literal); for every amount up to 10 it returns exactly that value; so the fee is never
  zero. For NaN it returns NaN.
\<close>

theorem C10_fee_floor:
  assumes "a \<noteq> NaN"
  shows "js_le (fl (1 / 100)) (calculateX402Fee a) \<and>
         (js_le a (Fin 10) \<longrightarrow> calculateX402Fee a = fl (1 / 100)) \<and>
         calculateX402Fee a \<noteq> Fin 0"
proof -
  from calculateX402Fee_floor [OF assms]
  have f: "js_le (fl (1 / 100)) (calculateX402Fee a)" .
  have "calculateX402Fee a \<noteq> Fin 0"
  proof
    assume z: "calculateX402Fee a = Fin 0"
    from f [unfolded z] show False by (simp add: fl_hundredth)
  qed
  with f show ?thesis by (simp add: calculateX402Fee_small)
qed

theorem C10_fee_floor_witness:
  "Fin (- 5) \<noteq> NaN \<and> js_le (Fin (- 5)) (Fin 10) \<and>
   calculateX402Fee (Fin (- 5)) = Fin (5764607523034235 / 2 ^ 59) \<and>
   calculateX402Fee (Fin 13) = Fin (7493989779944506 / 2 ^ 59) \<and>
   fl (1 / 100) = Fin (5764607523034235 / 2 ^ 59)"
proof -
  have h: "Fin (- 5) \<noteq> NaN" by simp
  have v: "calculateX402Fee (Fin 13) = Fin (7493989779944506 / 2 ^ 59)"
    by (simp add: calculateX402Fee_def fl_thousandth fl_hundredth) (simp add: fl_eval)
  from C10_fee_floor [OF h] v show ?thesis by (simp add: fl_hundredth)
qed

lemma portal_minus_one:
  "portal_calculateX402Fee (Fin (- 1)) = Fin (- (1152921504606847 / 2 ^ 60))"
  by (simp add: portal_calculateX402Fee_def fl_thousandth) (simp add: fl_eval)

lemma portal_NInf: "portal_calculateX402Fee NInf = NInf"
  by (simp add: portal_calculateX402Fee_def fl_thousandth)

lemma portal_zero: "portal_calculateX402Fee (Fin 0) = Fin 0"
  by (simp add: portal_calculateX402Fee_def fl_thousandth)

text \<open>
  Claim C6, as stated, fails for the donor portal's helper on negative amounts. At amount
  -1 it returns -0.001, which \<open>max(minimumFee, amount * feeRate)\<close> never is when the minimum
  fee is at least 0, whatever the two constants. And no constants at all fit the helper on
  every amount, unless the minimum fee is minus infinity.
\<close>

theorem C6_counterexample:
  "\<not> (\<exists>m r. js_le (Fin 0) m \<and>
          portal_calculateX402Fee (Fin (- 1)) = js_max m (js_mul (Fin (- 1)) r)) \<and>
   \<not> (\<exists>m r. m \<noteq> NInf \<and> (\<forall>a. portal_calculateX402Fee a = js_max m (js_mul a r)))"
proof (intro conjI notI)
  assume "\<exists>m r. js_le (Fin 0) m \<and>
          portal_calculateX402Fee (Fin (- 1)) = js_max m (js_mul (Fin (- 1)) r)"
  then obtain m r where m: "js_le (Fin 0) m"
    and e: "js_max m (js_mul (Fin (- 1)) r) = Fin (- (1152921504606847 / 2 ^ 60))"
    by (auto simp: portal_minus_one)
  from js_max_floor_nonneg [OF m e] show False by simp
next
  assume "\<exists>m r. m \<noteq> NInf \<and> (\<forall>a. portal_calculateX402Fee a = js_max m (js_mul a r))"
  then obtain m r where m: "m \<noteq> NInf"
    and e: "\<And>a. portal_calculateX402Fee a = js_max m (js_mul a r)"
    by blast
  from e [of "Fin 0"] have z: "js_max m (js_mul (Fin 0) r) = Fin 0" by (simp add: portal_zero)
  from e [of NInf] have n: "js_max m (js_mul NInf r) = NInf" by (simp add: portal_NInf)
  show False
  proof (cases m)
    case (Fin x)
    with n js_max_Fin_not_NInf [of x "js_mul NInf r"] show False by simp
  next
    case PInf
    with z show False by (cases "js_mul (Fin 0) r") simp_all
  next
    case NInf
    with m show False by simp
  next
    case NaN
    with z show False by simp
  qed
qed

text \<open>
  Claim C6, amended. In binary64 arithmetic the hook's \<open>calculateX402Fee\<close> is
  \<open>max(0.01, amount * 0.001)\<close>; the donor portal's helper of the same name is
  \<open>amount * 0.001\<close>, which is \<open>max(0, amount * 0.001)\<close> on the amounts that are at least 0
  and has no floor on the others; both are monotonically non-decreasing in the amount
  (being functions, both are deterministic).
\<close>

theorem C6_fee_helpers:
  "calculateX402Fee a = js_max (fl (1 / 100)) (js_mul a (fl (1 / 1000))) \<and>
   portal_calculateX402Fee a = js_mul a (fl (1 / 1000)) \<and>
   (js_le a b \<longrightarrow> js_le (calculateX402Fee a) (calculateX402Fee b)
                \<and> js_le (portal_calculateX402Fee a) (portal_calculateX402Fee b)) \<and>
   (js_le (Fin 0) a \<longrightarrow>
      portal_calculateX402Fee a = js_max (Fin 0) (js_mul a (fl (1 / 1000))))"
proof -
  have nonneg: "portal_calculateX402Fee a = js_max (Fin 0) (js_mul a (fl (1 / 1000)))"
    if "js_le (Fin 0) a"
  proof -
    from portal_mono [OF that] have "js_le (Fin 0) (portal_calculateX402Fee a)"
      by (simp only: portal_zero)
    from js_max_absorb_left [OF this] show ?thesis
      by (simp add: portal_calculateX402Fee_def)
  qed
  show ?thesis
    using calculateX402Fee_mono [of a b] portal_mono [of a b] nonneg
    by (simp add: calculateX402Fee_def portal_calculateX402Fee_def)
qed

theorem C6_fee_helpers_witness:
  "js_le (Fin 0) (Fin 100) \<and> js_le (Fin 100) (Fin 20000) \<and>
   calculateX402Fee (Fin 100) = Fin (3602879701896397 / 2 ^ 55) \<and>
   calculateX402Fee (Fin 20000) = Fin 20 \<and>
   portal_calculateX402Fee (Fin 100) = Fin (3602879701896397 / 2 ^ 55) \<and>
   js_le (calculateX402Fee (Fin 100)) (calculateX402Fee (Fin 20000)) \<and>
   js_le (portal_calculateX402Fee (Fin 100)) (portal_calculateX402Fee (Fin 20000))"
proof -
  have h1: "js_le (Fin 0) (Fin 100)" and h2: "js_le (Fin 100) (Fin 20000)" by simp_all
  have p: "portal_calculateX402Fee (Fin 100) = Fin (3602879701896397 / 2 ^ 55)"
    by (simp add: portal_calculateX402Fee_def fl_thousandth) (simp add: fl_eval)
  have q: "portal_calculateX402Fee (Fin 20000) = Fin 20"
    by (simp add: portal_calculateX402Fee_def fl_thousandth) (simp add: fl_eval)
  have v1: "calculateX402Fee (Fin 100) = Fin (3602879701896397 / 2 ^ 55)"
    by (simp add: calculateX402Fee_portal p fl_hundredth max_def)
  have v2: "calculateX402Fee (Fin 20000) = Fin 20"
    by (simp add: calculateX402Fee_portal q fl_hundredth max_def)
  from C6_fee_helpers [of "Fin 100" "Fin 20000"] h2
  have m: "js_le (calculateX402Fee (Fin 100)) (calculateX402Fee (Fin 20000))"
    "js_le (portal_calculateX402Fee (Fin 100)) (portal_calculateX402Fee (Fin 20000))"
    by blast+
  from m h1 h2 p v1 v2 show ?thesis by blast
qed

section \<open>Starting and stopping\<close>

lemma find_map_deactivate:
  "find (\<lambda>x. id x = sid) (map (deactivate sid) xs)
     = map_option (deactivate sid) (find (\<lambda>x. id x = sid) xs)"
  by (induction xs) (auto simp: deactivate_def)

lemma deactivate_idem: "deactivate sid (deactivate sid x) = deactivate sid x"
  by (simp add: deactivate_def)

lemma intervalId_deactivate: "intervalId (deactivate sid x) = intervalId x"
  by (simp add: deactivate_def)

lemma clearInterval_idem: "clearInterval h (clearInterval h ts) = clearInterval h ts"
  by (simp add: clearInterval_def)

lemma map_deactivate_inactive:
  "\<forall>x\<in>set xs. id x = sid \<longrightarrow> \<not> isActive x \<Longrightarrow> map (deactivate sid) xs = xs"
  by (induction xs) (auto simp: deactivate_def)

text \<open>
  Claim C1, as stated, fails: \<open>startPaymentStream\<close> validates nothing. Called with amount 0,
  interval 0 and an empty recipient it returns the id and the list of active streams grows.
\<close>

theorem C1_counterexample:
  "fst (startPaymentStream ''s1'' 0 (Fin 0) [] (Fin 0) init) = Some ''s1'' \<and>
   getAllStreams (snd (startPaymentStream ''s1'' 0 (Fin 0) [] (Fin 0) init)) \<noteq> getAllStreams init"
  by (simp add: startPaymentStream_def init_def getAllStreams_def)

text \<open>
  Claim C1, amended. Every call of \<open>startPaymentStream\<close>, whatever the amount, the interval
  and the recipient, returns the stream id and appends one new stream that is active with
  \<open>totalSent = 0\<close>; no payment has been begun when it returns.
\<close>

theorem C1_start_always_creates:
  "fst (startPaymentStream sid now amt rcp ivl s) = Some sid \<and>
   activeStreams (snd (startPaymentStream sid now amt rcp ivl s))
     = activeStreams s @ [\<lparr>id = sid, amount = amt, interval = ivl, recipient = rcp,
          isActive = True, totalSent = Fin 0, startTime = now, intervalId = nextIntervalId s\<rparr>] \<and>
   getAllStreams (snd (startPaymentStream sid now amt rcp ivl s))
     = getAllStreams s @ [\<lparr>id = sid, amount = amt, interval = ivl, recipient = rcp,
          isActive = True, totalSent = Fin 0, startTime = now, intervalId = nextIntervalId s\<rparr>] \<and>
   inflight (snd (startPaymentStream sid now amt rcp ivl s)) = inflight s"
  by (simp add: startPaymentStream_def getAllStreams_def Let_def)

text \<open>
  Claim C3. Stopping a stream twice in a row gives the same hook state as stopping it once,
  the second call goes through like the first, and stopping a stream that is already
  inactive leaves the stream list as it is.
\<close>

theorem C3_stop_idempotent:
  "stopPaymentStream sid (stopPaymentStream sid s) = stopPaymentStream sid s \<and>
   step (stopPaymentStream sid s) (Stop sid) = Some (stopPaymentStream sid s) \<and>
   ((\<forall>x\<in>set (activeStreams s). id x = sid \<longrightarrow> \<not> isActive x) \<longrightarrow>
      activeStreams (stopPaymentStream sid s) = activeStreams s)"
proof -
  have idem: "stopPaymentStream sid (stopPaymentStream sid s) = stopPaymentStream sid s"
    by (cases "find (\<lambda>x. id x = sid) (activeStreams s)")
       (simp_all add: stopPaymentStream_def find_map_deactivate deactivate_idem
          intervalId_deactivate clearInterval_idem)
  have noop: "(\<forall>x\<in>set (activeStreams s). id x = sid \<longrightarrow> \<not> isActive x) \<longrightarrow>
      activeStreams (stopPaymentStream sid s) = activeStreams s"
    by (simp add: stopPaymentStream_def map_deactivate_inactive)
  from idem noop show ?thesis by simp
qed

theorem C3_stop_idempotent_witness:
  "stopPaymentStream ''s1'' (stopPaymentStream ''s1'' (stopPaymentStream ''s1'' demo_started))
     = stopPaymentStream ''s1'' (stopPaymentStream ''s1'' demo_started) \<and>
   map (\<lambda>x. (id x, isActive x)) (activeStreams (stopPaymentStream ''s1'' demo_started))
     = [(''s1'', False)] \<and>
   activeStreams (stopPaymentStream ''s1'' (stopPaymentStream ''s1'' demo_started))
     = activeStreams (stopPaymentStream ''s1'' demo_started)"
proof -
  have v: "map (\<lambda>x. (id x, isActive x)) (activeStreams (stopPaymentStream ''s1'' demo_started))
     = [(''s1'', False)]"
    by (simp add: demo_started_def startPaymentStream_def init_def stopPaymentStream_def
        deactivate_def)
  then have h: "\<forall>x\<in>set (activeStreams (stopPaymentStream ''s1'' demo_started)).
      id x = ''s1'' \<longrightarrow> \<not> isActive x"
    by auto
  from C3_stop_idempotent [of "''s1''" "stopPaymentStream ''s1'' demo_started"] h v
  show ?thesis by blast
qed

lemma find_None_id: "sid \<notin> id ` set xs \<Longrightarrow> find (\<lambda>x. id x = sid) xs = None"
  by (induction xs) auto

lemma map_deactivate_absent: "sid \<notin> id ` set xs \<Longrightarrow> map (deactivate sid) xs = xs"
  by (induction xs) (auto simp: deactivate_def)

lemma isActive_deactivate: "isActive (deactivate sid x) = (isActive x \<and> id x \<noteq> sid)"
  by (simp add: deactivate_def)

lemma stop_streams:
  "activeStreams (stopPaymentStream sid s) = map (deactivate sid) (activeStreams s)"
  by (simp add: stopPaymentStream_def Let_def)

lemma stop_timers:
  "timers (stopPaymentStream sid s) =
     (case find (\<lambda>x. id x = sid) (activeStreams s) of
        Some stream \<Rightarrow>
          if intervalId stream \<noteq> 0 then clearInterval (intervalId stream) (timers s)
          else timers s
      | None \<Rightarrow> timers s)"
  by (simp add: stopPaymentStream_def Let_def)

text \<open>
  Claim C9, as stated, fails in its second half: \<open>stopPaymentStream\<close> on an id that names
  no stream goes through and leaves the state as it was; nothing is reported.
\<close>

theorem C9_counterexample:
  "step init (Stop ''ghost'') = Some init \<and> stopPaymentStream ''ghost'' init = init"
  by (simp add: stopPaymentStream_def init_def)

text \<open>
  Claim C9, amended. For an id that names no stream, \<open>getStreamStats\<close> returns \<open>null\<close>,
  and \<open>stopPaymentStream\<close> is a silent no-op: it completes and the hook state is unchanged.
\<close>

theorem C9_unknown_id:
  assumes "sid \<notin> id ` set (activeStreams s)"
  shows "getStreamStats now s sid = None \<and> stopPaymentStream sid s = s
         \<and> step s (Stop sid) = Some s"
  using assms
  by (simp add: getStreamStats_def stopPaymentStream_def find_None_id map_deactivate_absent)

theorem C9_unknown_id_witness:
  "''ghost'' \<notin> id ` set (activeStreams demo_started) \<and>
   getStreamStats 5000 demo_started ''ghost'' = None \<and>
   stopPaymentStream ''ghost'' demo_started = demo_started \<and>
   step demo_started (Stop ''ghost'') = Some demo_started"
proof -
  have h: "''ghost'' \<notin> id ` set (activeStreams demo_started)"
    by (simp add: demo_started_def startPaymentStream_def init_def)
  from h C9_unknown_id [OF h, of 5000] show ?thesis by simp
qed

section \<open>Ticks\<close>

text \<open>
  Claim C5. When the payment of a tick settles with failure, the step goes through, the
  stream list is exactly as before (so the stream's total and its active flag are kept, and
  every other stream is untouched), and the timers are kept, so the stream ticks again.
\<close>

theorem C5_failed_tick_isolated:
  "(sid, amt) \<in> set (inflight s) \<Longrightarrow>
     step s (Settle sid amt False) = Some (tickEnd sid amt False s) \<and>
     activeStreams (tickEnd sid amt False s) = activeStreams s \<and>
     getAllStreams (tickEnd sid amt False s) = getAllStreams s \<and>
     timers (tickEnd sid amt False s) = timers s"
  by (simp add: tickEnd_def getAllStreams_def)

theorem C5_failed_tick_isolated_witness:
  "(''s1'', Fin 8) \<in> set (inflight demo_pending) \<and>
   step demo_pending (Settle ''s1'' (Fin 8) False) = Some (tickEnd ''s1'' (Fin 8) False demo_pending) \<and>
   activeStreams (tickEnd ''s1'' (Fin 8) False demo_pending) = activeStreams demo_pending \<and>
   getAllStreams (tickEnd ''s1'' (Fin 8) False demo_pending) = getAllStreams demo_pending \<and>
   timers (tickEnd ''s1'' (Fin 8) False demo_pending) = timers demo_pending"
proof -
  have h: "(''s1'', Fin 8) \<in> set (inflight demo_pending)"
    by (simp add: demo_pending_def tickBegin_def demo_started_def startPaymentStream_def init_def)
  from h C5_failed_tick_isolated [OF h] show ?thesis by simp
qed

section \<open>Invariants of every run\<close>

lemma run_snoc:
  "run s (tr @ [e]) = (case run s tr of None \<Rightarrow> None | Some s' \<Rightarrow> step s' e)"
  by (induction tr arbitrary: s) (auto split: option.splits)

lemma startIds_append: "startIds (xs @ ys) = startIds xs @ startIds ys"
  by (induction xs rule: startIds.induct) auto

lemma successCount_append:
  "successCount sid (xs @ ys) = successCount sid xs + successCount sid ys"
  by (induction sid xs rule: successCount.induct) auto

lemma addSent_fields [simp]:
  "id (addSent sid a x) = id x" "amount (addSent sid a x) = amount x"
  "intervalId (addSent sid a x) = intervalId x" "isActive (addSent sid a x) = isActive x"
  by (simp_all add: addSent_def)

lemma deactivate_fields [simp]:
  "id (deactivate sid x) = id x" "amount (deactivate sid x) = amount x"
  "intervalId (deactivate sid x) = intervalId x" "totalSent (deactivate sid x) = totalSent x"
  by (simp_all add: deactivate_def)

lemma linked_start:
  assumes "linked s" and "sid \<notin> id ` set (activeStreams s)"
  shows "linked (snd (startPaymentStream sid now amt rcp ivl s))"
  using assms unfolding linked_def startPaymentStream_def Let_def
  by (auto simp: comp_def)

lemma linked_tickBegin:
  assumes "linked s" and "t \<in> set (timers s)"
  shows "linked (tickBegin t s)"
  using assms unfolding linked_def tickBegin_def by auto

lemma linked_map:
  assumes "linked s"
    and "\<And>x. id (f x) = id x" "\<And>x. amount (f x) = amount x"
    and "\<And>x. intervalId (f x) = intervalId x"
    and "set ts \<subseteq> set (timers s)" and "set ps \<subseteq> set (inflight s)"
    and "activeStreams s' = map f (activeStreams s)" and "timers s' = ts"
    and "inflight s' = ps" and "nextIntervalId s' = nextIntervalId s"
  shows "linked s'"
proof -
  have m: "map (id \<circ> f) (activeStreams s) = map id (activeStreams s)"
    using assms(2) by simp
  have d: "distinct (map id (activeStreams s'))"
    using assms(1) by (simp add: linked_def assms(7) m)
  have t: "\<exists>x\<in>set (activeStreams s').
        id x = timerStream t \<and> amount x = timerAmount t \<and> intervalId x = timerId t"
    if "t \<in> set (timers s')" for t
  proof -
    from that assms(5,8) have "t \<in> set (timers s)" by auto
    with assms(1) obtain x where "x \<in> set (activeStreams s)" "id x = timerStream t"
      "amount x = timerAmount t" "intervalId x = timerId t"
      unfolding linked_def by blast
    then have "f x \<in> set (activeStreams s')" "id (f x) = timerStream t"
      "amount (f x) = timerAmount t" "intervalId (f x) = timerId t"
      by (simp_all add: assms(2,3,4,7))
    then show ?thesis by blast
  qed
  have p: "\<exists>x\<in>set (activeStreams s'). id x = fst p \<and> amount x = snd p"
    if "p \<in> set (inflight s')" for p
  proof -
    from that assms(6,9) have "p \<in> set (inflight s)" by auto
    with assms(1) obtain x where "x \<in> set (activeStreams s)" "id x = fst p" "amount x = snd p"
      unfolding linked_def by blast
    then have "f x \<in> set (activeStreams s')" "id (f x) = fst p" "amount (f x) = snd p"
      by (simp_all add: assms(2,3,7))
    then show ?thesis by blast
  qed
  have i: "\<forall>x\<in>set (activeStreams s'). intervalId x \<noteq> 0"
    using assms(1) by (auto simp: linked_def assms(4,7))
  have n: "nextIntervalId s' \<noteq> 0"
    using assms(1) by (simp add: linked_def assms(10))
  from d t p i n show ?thesis unfolding linked_def by blast
qed

lemma linked_tickEnd:
  assumes "linked s"
  shows "linked (tickEnd sid amt ok s)"
proof (cases ok)
  case True
  show ?thesis
    by (rule linked_map [OF assms, where f = "addSent sid amt" and ts = "timers s"
          and ps = "remove1 (sid, amt) (inflight s)"])
       (simp_all add: tickEnd_def True set_remove1_subset)
next
  case False
  show ?thesis
    by (rule linked_map [OF assms, where f = "\<lambda>x. x" and ts = "timers s"
          and ps = "remove1 (sid, amt) (inflight s)"])
       (simp_all add: tickEnd_def False set_remove1_subset)
qed

lemma linked_stop:
  assumes "linked s"
  shows "linked (stopPaymentStream sid s)"
  by (rule linked_map [OF assms, where f = "deactivate sid"
        and ts = "timers (stopPaymentStream sid s)" and ps = "inflight s"])
     (auto simp: stopPaymentStream_def clearInterval_def split: option.splits)

lemma linked_init: "linked init"
  by (simp add: linked_def init_def)

lemma find_timer_mem: "find P ts = Some t \<Longrightarrow> t \<in> set ts \<and> P t"
  by (induction ts) (auto split: if_splits)

lemma linked_step:
  assumes "linked s" and "step s e = Some s'"
    and "set (startIds [e]) \<inter> id ` set (activeStreams s) = {}"
  shows "linked s'"
proof (cases e)
  case (Start sid now amt rcp ivl)
  with assms show ?thesis by (auto intro: linked_start)
next
  case (Fire h)
  with assms show ?thesis
    by (auto split: option.splits dest: find_timer_mem intro: linked_tickBegin)
next
  case (Settle sid amt ok)
  with assms show ?thesis by (auto split: if_splits intro: linked_tickEnd)
next
  case (Stop sid)
  with assms show ?thesis by (auto intro: linked_stop)
qed

lemma distinct_id_eq:
  "distinct (map id xs) \<Longrightarrow> x \<in> set xs \<Longrightarrow> y \<in> set xs \<Longrightarrow> id x = id y \<Longrightarrow> x = y"
  by (auto simp: distinct_map dest: inj_onD)

lemma inflight_amount:
  assumes "linked s" and "(sid, amt) \<in> set (inflight s)"
    and "x \<in> set (activeStreams s)" and "id x = sid"
  shows "amount x = amt"
proof -
  from assms(1,2) obtain y where y: "y \<in> set (activeStreams s)" "id y = sid" "amount y = amt"
    unfolding linked_def by force
  from assms(1) have "distinct (map id (activeStreams s))" by (simp add: linked_def)
  from distinct_id_eq [OF this assms(3) y(1)] assms(4) y(2) have "x = y" by simp
  with y(3) show ?thesis by simp
qed

lemma step_streams:
  assumes "step s e = Some s'"
  shows "activeStreams s' =
     (case e of
        Start sid now amt rcp ivl \<Rightarrow>
          activeStreams s @ [\<lparr>id = sid, amount = amt, interval = ivl, recipient = rcp,
             isActive = True, totalSent = Fin 0, startTime = now, intervalId = nextIntervalId s\<rparr>]
      | Fire h \<Rightarrow> activeStreams s
      | Settle sid amt ok \<Rightarrow>
          (if ok then map (addSent sid amt) (activeStreams s) else activeStreams s)
      | Stop sid \<Rightarrow> map (deactivate sid) (activeStreams s))"
  using assms
  by (cases e)
     (auto simp: startPaymentStream_def tickBegin_def tickEnd_def stopPaymentStream_def Let_def
        split: option.splits if_splits)

lemma step_index:
  assumes "linked s" and "step s e = Some s'" and "i < length (activeStreams s)"
  shows "i < length (activeStreams s') \<and>
     id (activeStreams s' ! i) = id (activeStreams s ! i) \<and>
     amount (activeStreams s' ! i) = amount (activeStreams s ! i) \<and>
     totalSent (activeStreams s' ! i)
       = (if successCount (id (activeStreams s ! i)) [e] = 0
          then totalSent (activeStreams s ! i)
          else js_add (totalSent (activeStreams s ! i)) (amount (activeStreams s ! i)))"
proof (cases e)
  case (Start sid now amt rcp ivl)
  with step_streams [OF assms(2)] assms(3) show ?thesis by (simp add: nth_append)
next
  case (Fire h)
  with step_streams [OF assms(2)] assms(3) show ?thesis by simp
next
  case (Stop sid)
  with step_streams [OF assms(2)] assms(3) show ?thesis by simp
next
  case (Settle sid amt ok)
  from assms(2) Settle have mem: "(sid, amt) \<in> set (inflight s)"
    by (simp split: if_splits)
  have x: "activeStreams s ! i \<in> set (activeStreams s)" using assms(3) by simp
  have a: "id (activeStreams s ! i) = sid \<Longrightarrow> amount (activeStreams s ! i) = amt"
    using inflight_amount [OF assms(1) mem x] by simp
  from step_streams [OF assms(2)] Settle assms(3) a show ?thesis
    by (auto simp: addSent_def)
qed

lemma step_ids:
  assumes "step s e = Some s'"
  shows "id ` set (activeStreams s') = id ` set (activeStreams s) \<union> set (startIds [e])"
  using step_streams [OF assms] by (cases e) (auto simp: image_iff)

lemma settle_known:
  assumes "linked s" and "step s e = Some s'" and "sid \<notin> id ` set (activeStreams s)"
  shows "successCount sid [e] = 0"
proof (cases e)
  case (Settle sid' amt ok)
  from assms(2) Settle have "(sid', amt) \<in> set (inflight s)" by (simp split: if_splits)
  with assms(1) have "sid' \<in> id ` set (activeStreams s)" unfolding linked_def by force
  with assms(3) Settle show ?thesis by auto
qed simp_all

lemma reach_inv:
  assumes "run init tr = Some s" and "distinct (startIds tr)"
  shows "linked s \<and> id ` set (activeStreams s) = set (startIds tr)
         \<and> (\<forall>sid. sid \<notin> set (startIds tr) \<longrightarrow> successCount sid tr = 0)
         \<and> accounted tr s"
  using assms
proof (induction tr arbitrary: s rule: rev_induct)
  case Nil
  then have "s = init" by simp
  then show ?case by (simp add: linked_init accounted_def) (simp add: init_def)
next
  case (snoc e tr)
  from snoc.prems(1) obtain s0 where r: "run init tr = Some s0" and st: "step s0 e = Some s"
    by (auto simp: run_snoc split: option.splits)
  from snoc.prems(2) have d: "distinct (startIds tr)"
    and fresh: "set (startIds [e]) \<inter> set (startIds tr) = {}"
    by (auto simp: startIds_append)
  from snoc.IH [OF r d] have l0: "linked s0"
    and ids0: "id ` set (activeStreams s0) = set (startIds tr)"
    and z0: "\<forall>sid. sid \<notin> set (startIds tr) \<longrightarrow> successCount sid tr = 0"
    and acc0: "accounted tr s0"
    by simp_all
  from fresh ids0 have fr: "set (startIds [e]) \<inter> id ` set (activeStreams s0) = {}" by simp
  have l: "linked s" by (rule linked_step [OF l0 st fr])
  have ids: "id ` set (activeStreams s) = set (startIds (tr @ [e]))"
    using step_ids [OF st] ids0 by (simp add: startIds_append)
  have z: "\<forall>sid. sid \<notin> set (startIds (tr @ [e])) \<longrightarrow> successCount sid (tr @ [e]) = 0"
  proof (intro allI impI)
    fix sid assume "sid \<notin> set (startIds (tr @ [e]))"
    then have n: "sid \<notin> set (startIds tr)" by (simp add: startIds_append)
    with ids0 have "sid \<notin> id ` set (activeStreams s0)" by simp
    from settle_known [OF l0 st this] z0 n show "successCount sid (tr @ [e]) = 0"
      by (simp add: successCount_append)
  qed
  have acc: "accounted (tr @ [e]) s"
    unfolding accounted_def
  proof
    fix x assume xin: "x \<in> set (activeStreams s)"
    then obtain i where i: "i < length (activeStreams s)" "activeStreams s ! i = x"
      by (auto simp: in_set_conv_nth)
    show "totalSent x = sumSent (successCount (id x) (tr @ [e])) (amount x)"
    proof (cases "i < length (activeStreams s0)")
      case True
      let ?y = "activeStreams s0 ! i"
      from True have yin: "?y \<in> set (activeStreams s0)" by simp
      with acc0 have ty: "totalSent ?y = sumSent (successCount (id ?y) tr) (amount ?y)"
        by (simp add: accounted_def)
      have c: "successCount (id ?y) [e] = 0 \<or> successCount (id ?y) [e] = 1"
        by (cases e) auto
      from step_index [OF l0 st True] i(2) ty c show ?thesis
        by (auto simp: successCount_append)
    next
      case False
      with step_streams [OF st] i obtain sid now amt rcp ivl
        where e: "e = Start sid now amt rcp ivl"
        by (cases e) (auto split: if_splits)
      with step_streams [OF st] False i
      have x: "id x = sid" "totalSent x = Fin 0"
        by (auto simp: nth_append split: if_splits)
      from e fresh have "sid \<notin> set (startIds tr)" by simp
      with z0 have "successCount sid tr = 0" by simp
      with x e show ?thesis by (simp add: successCount_append)
    qed
  qed
  from l ids z acc show ?case by simp
qed

section \<open>Accounting of the total sent\<close>

lemma fl_nonneg_shape:
  assumes "0 \<le> x"
  shows "(\<exists>r. fl x = Fin r \<and> 0 \<le> r \<and> fl r = Fin r) \<or> fl x = PInf"
proof (cases "x = 0")
  case True
  then show ?thesis by simp
next
  case False
  with assms have x: "0 < x" by simp
  show ?thesis
  proof (cases "2 ^ 1024 \<le> round_pos x")
    case True
    with x show ?thesis by (simp add: fl_def)
  next
    case False
    with x have f: "fl x = Fin (round_pos x)" by (simp add: fl_def)
    from fl_idem [OF f] round_pos_nonneg [OF x] f show ?thesis by simp
  qed
qed

lemma sumSent_shape:
  assumes "js_le (Fin 0) a"
  shows "(\<exists>t. sumSent n a = Fin t \<and> 0 \<le> t \<and> fl t = Fin t) \<or> sumSent n a = PInf"
proof (induction n)
  case 0
  show ?case by simp
next
  case (Suc n)
  show ?case
  proof (cases a)
    case (Fin a')
    with assms have a': "0 \<le> a'" by simp
    from Suc.IH show ?thesis
    proof
      assume "\<exists>t. sumSent n a = Fin t \<and> 0 \<le> t \<and> fl t = Fin t"
      then obtain t where t: "sumSent n a = Fin t" "0 \<le> t" by blast
      from t(2) a' have "0 \<le> t + a'" by simp
      from fl_nonneg_shape [OF this] t(1) Fin show ?thesis by simp
    next
      assume "sumSent n a = PInf"
      with Fin show ?thesis by simp
    qed
  next
    case PInf
    from Suc.IH PInf show ?thesis by auto
  next
    case NInf
    with assms show ?thesis by simp
  next
    case NaN
    with assms show ?thesis by simp
  qed
qed

lemma sumSent_not_NaN: "js_le (Fin 0) a \<Longrightarrow> sumSent n a \<noteq> NaN"
  using sumSent_shape [of a n] by auto

lemma sumSent_nondecr:
  assumes "js_le (Fin 0) a"
  shows "js_le (sumSent n a) (js_add (sumSent n a) a)"
proof (cases a)
  case (Fin a')
  with assms have a': "0 \<le> a'" by simp
  from sumSent_shape [OF assms, of n] show ?thesis
  proof
    assume "\<exists>t. sumSent n a = Fin t \<and> 0 \<le> t \<and> fl t = Fin t"
    then obtain t where t: "sumSent n a = Fin t" "fl t = Fin t" by blast
    from a' have "t \<le> t + a'" by simp
    from fl_mono [OF this] t Fin show ?thesis by simp
  next
    assume "sumSent n a = PInf"
    with Fin show ?thesis by simp
  qed
next
  case PInf
  from sumSent_shape [OF assms, of n] PInf show ?thesis by auto
next
  case NInf
  with assms show ?thesis by simp
next
  case NaN
  with assms show ?thesis by simp
qed

lemma sumSent_int:
  assumes "\<bar>k\<bar> * int n \<le> 2 ^ 53"
  shows "sumSent n (Fin (of_int k)) = Fin (of_int (k * int n))"
  using assms
proof (induction n)
  case 0
  show ?case by simp
next
  case (Suc n)
  have "\<bar>k\<bar> * int n \<le> \<bar>k\<bar> * int (Suc n)" by (intro mult_left_mono) simp_all
  with Suc.prems have "\<bar>k\<bar> * int n \<le> 2 ^ 53" by linarith
  from Suc.IH [OF this] have "sumSent (Suc n) (Fin (of_int k)) = fl (of_int (k * int n + k))"
    by simp
  moreover have "\<bar>k * int n + k\<bar> \<le> 2 ^ 53"
  proof -
    have "k * int n + k = k * int (Suc n)" by (simp add: algebra_simps)
    then have "\<bar>k * int n + k\<bar> = \<bar>k\<bar> * int (Suc n)" by (simp only: abs_mult abs_of_nat)
    with Suc.prems show ?thesis by simp
  qed
  ultimately show ?case using fl_int [of "k * int n + k"] by (simp add: algebra_simps)
qed

lemma js_mul_int:
  assumes "\<bar>k\<bar> * int n \<le> 2 ^ 53"
  shows "js_mul (Fin (of_int k)) (Fin (of_nat n)) = Fin (of_int (k * int n))"
proof -
  have "\<bar>k * int n\<bar> \<le> 2 ^ 53" using assms by (simp add: abs_mult)
  from fl_int [OF this] show ?thesis by simp
qed

lemma tenth_val: "tenth = Fin (3602879701896397 / 2 ^ 55)"
  by (simp only: tenth_def fl_tenth)

lemma six_ticks_run:
  "map_option (\<lambda>s. map totalSent (activeStreams s)) (run init six_ticks)
     = Some [Fin (5404319552844595 / 2 ^ 53)]"
  by (simp add: six_ticks_def tenth_val init_def startPaymentStream_def tickBegin_def
      tickEnd_def addSent_def)
     (simp add: fl_eval)

text \<open>
  Claim C2, as stated, fails twice. The total is accumulated by binary64 additions: six
  successful ticks of 0.1 leave \<open>totalSent\<close> at 0.6, while \<open>0.1 * 6\<close> is
  0.6000000000000001. And \<open>startPaymentStream\<close> accepts a negative amount, whose successful
  tick lowers \<open>totalSent\<close> (here from 0 to -5).
\<close>

theorem C2_counterexample:
  "map_option (\<lambda>s. map totalSent (activeStreams s)) (run init six_ticks)
     = Some [Fin (5404319552844595 / 2 ^ 53)] \<and>
   successCount ''s1'' six_ticks = 6 \<and>
   js_mul tenth (Fin 6) = Fin (5404319552844596 / 2 ^ 53) \<and>
   map_option (\<lambda>s. map totalSent (activeStreams s))
     (run init [Start ''s1'' 0 (Fin (- 5)) ''c'' (Fin 10), Fire 1]) = Some [Fin 0] \<and>
   map_option (\<lambda>s. map totalSent (activeStreams s))
     (run init [Start ''s1'' 0 (Fin (- 5)) ''c'' (Fin 10), Fire 1,
                Settle ''s1'' (Fin (- 5)) True]) = Some [Fin (- 5)] \<and>
   \<not> js_le (Fin 0) (Fin (- 5))"
proof -
  have a: "successCount ''s1'' six_ticks = 6" by (simp add: six_ticks_def)
  have b: "js_mul tenth (Fin 6) = Fin (5404319552844596 / 2 ^ 53)"
    by (simp add: tenth_val) (simp add: fl_eval)
  have c: "map_option (\<lambda>s. map totalSent (activeStreams s))
     (run init [Start ''s1'' 0 (Fin (- 5)) ''c'' (Fin 10), Fire 1]) = Some [Fin 0]"
    by (simp add: init_def startPaymentStream_def tickBegin_def)
  have d: "map_option (\<lambda>s. map totalSent (activeStreams s))
     (run init [Start ''s1'' 0 (Fin (- 5)) ''c'' (Fin 10), Fire 1,
                Settle ''s1'' (Fin (- 5)) True]) = Some [Fin (- 5)]"
    by (simp add: init_def startPaymentStream_def tickBegin_def tickEnd_def addSent_def
        fl_neg_numeral)
  from six_ticks_run a b c d show ?thesis by simp
qed

text \<open>
  Claim C2, amended. In every state reached from the initial hook by starts with pairwise
  different ids, timer firings, settlements and stops, each stream's \<open>totalSent\<close> is what
  adding its amount to 0 once per successful tick gives in binary64 arithmetic; each
  further step leaves a stream's \<open>totalSent\<close> unchanged or replaces it by the binary64 sum
  \<open>totalSent + amount\<close>; \<open>totalSent\<close> never decreases for a stream whose amount is at
  least 0; and \<open>totalSent\<close> is exactly the amount times the number of successful ticks
  whenever the amount is an integer and that product is at most \<open>2^53\<close> in absolute value.
\<close>

theorem C2_totalSent_accounting:
  assumes "run init tr = Some s" and "distinct (startIds (tr @ [e]))" and "step s e = Some s'"
  shows "(\<forall>x\<in>set (activeStreams s).
            totalSent x = sumSent (successCount (id x) tr) (amount x)) \<and>
         (\<forall>x\<in>set (activeStreams s').
            totalSent x = sumSent (successCount (id x) (tr @ [e])) (amount x)) \<and>
         (\<forall>i<length (activeStreams s).
            i < length (activeStreams s') \<and>
            id (activeStreams s' ! i) = id (activeStreams s ! i) \<and>
            amount (activeStreams s' ! i) = amount (activeStreams s ! i) \<and>
            (totalSent (activeStreams s' ! i) = totalSent (activeStreams s ! i) \<or>
             totalSent (activeStreams s' ! i)
               = js_add (totalSent (activeStreams s ! i)) (amount (activeStreams s ! i))) \<and>
            (js_le (Fin 0) (amount (activeStreams s ! i)) \<longrightarrow>
               js_le (totalSent (activeStreams s ! i)) (totalSent (activeStreams s' ! i)))) \<and>
         (\<forall>x\<in>set (activeStreams s'). \<forall>k.
            amount x = Fin (of_int k) \<and>
            \<bar>k\<bar> * int (successCount (id x) (tr @ [e])) \<le> 2 ^ 53 \<longrightarrow>
            totalSent x = js_mul (amount x) (Fin (of_nat (successCount (id x) (tr @ [e])))) \<and>
            totalSent x = Fin (of_int k * of_nat (successCount (id x) (tr @ [e]))))"
proof -
  from assms(2) have d: "distinct (startIds tr)" by (simp add: startIds_append)
  from assms(1,3) have r': "run init (tr @ [e]) = Some s'" by (simp add: run_snoc)
  from reach_inv [OF assms(1) d] have l: "linked s" and a: "accounted tr s" by simp_all
  from reach_inv [OF r' assms(2)] have a': "accounted (tr @ [e]) s'" by simp
  have stepwise: "i < length (activeStreams s') \<and>
            id (activeStreams s' ! i) = id (activeStreams s ! i) \<and>
            amount (activeStreams s' ! i) = amount (activeStreams s ! i) \<and>
            (totalSent (activeStreams s' ! i) = totalSent (activeStreams s ! i) \<or>
             totalSent (activeStreams s' ! i)
               = js_add (totalSent (activeStreams s ! i)) (amount (activeStreams s ! i))) \<and>
            (js_le (Fin 0) (amount (activeStreams s ! i)) \<longrightarrow>
               js_le (totalSent (activeStreams s ! i)) (totalSent (activeStreams s' ! i)))"
    if i: "i < length (activeStreams s)" for i
  proof -
    let ?x = "activeStreams s ! i"
    from i have xin: "?x \<in> set (activeStreams s)" by simp
    with a have t: "totalSent ?x = sumSent (successCount (id ?x) tr) (amount ?x)"
      by (simp add: accounted_def)
    note si = step_index [OF l assms(3) i]
    have mono: "js_le (totalSent ?x) (totalSent (activeStreams s' ! i))"
      if nn: "js_le (Fin 0) (amount ?x)"
    proof (cases "successCount (id ?x) [e] = 0")
      case True
      with si have "totalSent (activeStreams s' ! i) = totalSent ?x" by simp
      with sumSent_not_NaN [OF nn] t show ?thesis by (simp add: js_le_refl)
    next
      case False
      with si have "totalSent (activeStreams s' ! i) = js_add (totalSent ?x) (amount ?x)"
        by simp
      with sumSent_nondecr [OF nn] t show ?thesis by simp
    qed
    from si mono show ?thesis by auto
  qed
  have exact: "totalSent x = js_mul (amount x) (Fin (of_nat (successCount (id x) (tr @ [e])))) \<and>
            totalSent x = Fin (of_int k * of_nat (successCount (id x) (tr @ [e])))"
    if "x \<in> set (activeStreams s')" "amount x = Fin (of_int k)"
      "\<bar>k\<bar> * int (successCount (id x) (tr @ [e])) \<le> 2 ^ 53" for x k
  proof -
    from a' that(1) have "totalSent x = sumSent (successCount (id x) (tr @ [e])) (amount x)"
      by (simp add: accounted_def)
    with sumSent_int [OF that(3)] js_mul_int [OF that(3)] that(2) show ?thesis by simp
  qed
  from a a' stepwise exact show ?thesis unfolding accounted_def by blast
qed

theorem C2_totalSent_accounting_witness:
  "run init [Start ''s1'' 0 (Fin 8) ''cause-1'' (Fin 10), Fire 1] = Some demo_pending \<and>
   distinct (startIds ([Start ''s1'' 0 (Fin 8) ''cause-1'' (Fin 10), Fire 1]
      @ [Settle ''s1'' (Fin 8) True])) \<and>
   step demo_pending (Settle ''s1'' (Fin 8) True)
     = Some (tickEnd ''s1'' (Fin 8) True demo_pending) \<and>
   map (\<lambda>x. (id x, amount x, totalSent x)) (activeStreams demo_pending)
     = [(''s1'', Fin 8, Fin 0)] \<and>
   map (\<lambda>x. (id x, amount x, totalSent x))
       (activeStreams (tickEnd ''s1'' (Fin 8) True demo_pending))
     = [(''s1'', Fin 8, Fin 8)] \<and>
   js_le (Fin 0) (Fin 8) \<and>
   \<bar>8\<bar> * int (successCount ''s1'' ([Start ''s1'' 0 (Fin 8) ''cause-1'' (Fin 10), Fire 1]
      @ [Settle ''s1'' (Fin 8) True])) \<le> (2 ^ 53 :: int) \<and>
   map (\<lambda>x. totalSent x = sumSent (successCount (id x)
         ([Start ''s1'' 0 (Fin 8) ''cause-1'' (Fin 10), Fire 1] @ [Settle ''s1'' (Fin 8) True]))
         (amount x))
     (activeStreams (tickEnd ''s1'' (Fin 8) True demo_pending)) = [True]"
proof -
  have h1: "run init [Start ''s1'' 0 (Fin 8) ''cause-1'' (Fin 10), Fire 1] = Some demo_pending"
    by (simp add: demo_pending_def demo_started_def init_def startPaymentStream_def)
  have h2: "distinct (startIds ([Start ''s1'' 0 (Fin 8) ''cause-1'' (Fin 10), Fire 1]
               @ [Settle ''s1'' (Fin 8) True]))"
    by simp
  have h3: "step demo_pending (Settle ''s1'' (Fin 8) True)
     = Some (tickEnd ''s1'' (Fin 8) True demo_pending)"
    by (simp add: demo_pending_def tickBegin_def)
  have v0: "map (\<lambda>x. (id x, amount x, totalSent x)) (activeStreams demo_pending)
     = [(''s1'', Fin 8, Fin 0)]"
    by (simp add: demo_pending_def tickBegin_def demo_started_def startPaymentStream_def
        init_def)
  have v: "map (\<lambda>x. (id x, amount x, totalSent x))
       (activeStreams (tickEnd ''s1'' (Fin 8) True demo_pending))
     = [(''s1'', Fin 8, Fin 8)]"
    by (simp add: tickEnd_def demo_pending_def tickBegin_def demo_started_def
        startPaymentStream_def init_def addSent_def fl_numeral)
  have b: "\<bar>8\<bar> * int (successCount ''s1''
      ([Start ''s1'' 0 (Fin 8) ''cause-1'' (Fin 10), Fire 1] @ [Settle ''s1'' (Fin 8) True]))
      \<le> (2 ^ 53 :: int)"
    by simp
  from v obtain x where l: "activeStreams (tickEnd ''s1'' (Fin 8) True demo_pending) = [x]"
    by auto
  from C2_totalSent_accounting [OF h1 h2 h3] l
  have "map (\<lambda>x. totalSent x = sumSent (successCount (id x)
         ([Start ''s1'' 0 (Fin 8) ''cause-1'' (Fin 10), Fire 1] @ [Settle ''s1'' (Fin 8) True]))
         (amount x))
     (activeStreams (tickEnd ''s1'' (Fin 8) True demo_pending)) = [True]"
    by auto
  with h1 h2 h3 v0 v b show ?thesis by simp
qed

section \<open>After a stop\<close>

lemma pending_remove1_in:
  "(sid, amt) \<in> set ps \<Longrightarrow>
   Suc (length (filter (\<lambda>p. fst p = sid) (remove1 (sid, amt) ps)))
     = length (filter (\<lambda>p. fst p = sid) ps)"
  by (induction ps) auto

lemma pending_remove1_other:
  "sid' \<noteq> sid \<Longrightarrow>
   filter (\<lambda>p. fst p = sid) (remove1 (sid', amt) ps) = filter (\<lambda>p. fst p = sid) ps"
  by (induction ps) auto

lemma filter_addSent_other:
  "sid' \<noteq> sid \<Longrightarrow>
   filter (\<lambda>x. id x = sid) (map (addSent sid' amt) xs) = filter (\<lambda>x. id x = sid) xs"
  by (induction xs) (auto simp: addSent_def)

lemma filter_deactivate_inactive:
  "\<forall>x\<in>set xs. id x = sid \<longrightarrow> \<not> isActive x \<Longrightarrow>
   filter (\<lambda>x. id x = sid) (map (deactivate sid') xs) = filter (\<lambda>x. id x = sid) xs"
  by (induction xs) (auto simp: deactivate_def)

lemma quiet_step:
  assumes "quiet sid s" and "step s e = Some s'" and "sid \<notin> set (startIds [e])"
  shows "quiet sid s' \<and> successCount sid [e] + pending sid s' \<le> pending sid s \<and>
         (pending sid s = 0 \<longrightarrow>
            filter (\<lambda>x. id x = sid) (activeStreams s')
              = filter (\<lambda>x. id x = sid) (activeStreams s))"
proof (cases e)
  case (Start sid' now amt rcp ivl)
  with assms show ?thesis
    by (auto simp: quiet_def pending_def startPaymentStream_def Let_def)
next
  case (Fire h)
  with assms(2) obtain t where t: "t \<in> set (timers s)" "s' = tickBegin t s"
    by (auto split: option.splits dest: find_timer_mem)
  with assms(1) have "timerStream t \<noteq> sid" by (auto simp: quiet_def)
  with assms(1) t Fire show ?thesis
    by (auto simp: quiet_def pending_def tickBegin_def)
next
  case (Settle sid' amt ok)
  with assms(2) have mem: "(sid', amt) \<in> set (inflight s)" and s': "s' = tickEnd sid' amt ok s"
    by (auto split: if_splits)
  have q: "quiet sid s'"
    using assms(1) by (auto simp: quiet_def s' tickEnd_def Let_def)
  show ?thesis
  proof (cases "sid' = sid")
    case True
    with mem have "Suc (pending sid s') = pending sid s"
      using pending_remove1_in [of sid amt "inflight s"]
      by (simp add: pending_def s' tickEnd_def Let_def)
    with q Settle show ?thesis by auto
  next
    case False
    then have "pending sid s' = pending sid s"
      by (simp add: pending_def s' tickEnd_def Let_def pending_remove1_other)
    moreover have "filter (\<lambda>x. id x = sid) (activeStreams s')
              = filter (\<lambda>x. id x = sid) (activeStreams s)"
      using False by (simp add: s' tickEnd_def Let_def filter_addSent_other)
    ultimately show ?thesis using q Settle False by simp
  qed
next
  case (Stop sid')
  with assms(2) have s': "s' = stopPaymentStream sid' s" by simp
  have q: "quiet sid s'"
    using assms(1)
    by (auto simp: quiet_def s' stopPaymentStream_def clearInterval_def deactivate_def
        split: option.splits)
  have "filter (\<lambda>x. id x = sid) (activeStreams s')
              = filter (\<lambda>x. id x = sid) (activeStreams s)"
    using assms(1) by (simp add: s' stopPaymentStream_def quiet_def filter_deactivate_inactive)
  with q Stop show ?thesis by (simp add: pending_def s' stopPaymentStream_def)
qed

lemma quiet_run:
  assumes "quiet sid s" and "run s tr = Some s'" and "sid \<notin> set (startIds tr)"
  shows "quiet sid s' \<and> successCount sid tr + pending sid s' \<le> pending sid s \<and>
         (pending sid s = 0 \<longrightarrow>
            filter (\<lambda>x. id x = sid) (activeStreams s')
              = filter (\<lambda>x. id x = sid) (activeStreams s))"
  using assms
proof (induction tr arbitrary: s)
  case Nil
  then show ?case by simp
next
  case (Cons e tr)
  from Cons.prems(2) obtain s1 where st: "step s e = Some s1" and r: "run s1 tr = Some s'"
    by (auto split: option.splits)
  from Cons.prems(3) have f1: "sid \<notin> set (startIds [e])" and f2: "sid \<notin> set (startIds tr)"
    using startIds_append [of "[e]" tr] by auto
  note one = quiet_step [OF Cons.prems(1) st f1]
  note q1 = one [THEN conjunct1]
  note c1 = one [THEN conjunct2, THEN conjunct1]
  note e1 = one [THEN conjunct2, THEN conjunct2]
  note rest = Cons.IH [OF q1 r f2]
  note q2 = rest [THEN conjunct1]
  note c2 = rest [THEN conjunct2, THEN conjunct1]
  note e2 = rest [THEN conjunct2, THEN conjunct2]
  have sc: "successCount sid (e # tr) = successCount sid [e] + successCount sid tr"
    using successCount_append [of sid "[e]" tr] by simp
  have cnt: "successCount sid (e # tr) + pending sid s' \<le> pending sid s"
    using c1 c2 sc by linarith
  have same: "filter (\<lambda>x. id x = sid) (activeStreams s')
              = filter (\<lambda>x. id x = sid) (activeStreams s)" if z: "pending sid s = 0"
  proof -
    from z c1 have "pending sid s1 = 0" by linarith
    with e2 have "filter (\<lambda>x. id x = sid) (activeStreams s')
              = filter (\<lambda>x. id x = sid) (activeStreams s1)" by blast
    also from z e1 have "\<dots> = filter (\<lambda>x. id x = sid) (activeStreams s)" by blast
    finally show ?thesis .
  qed
  from q2 cnt same show ?case by blast
qed

lemma find_id_mem: "find (\<lambda>x. id x = sid) xs = Some y \<Longrightarrow> y \<in> set xs \<and> id y = sid"
  by (induction xs) (auto split: if_splits)

lemma find_id_None: "find (\<lambda>x. id x = sid) xs = None \<Longrightarrow> sid \<notin> id ` set xs"
  by (induction xs) (auto split: if_splits)

lemma stop_quiet:
  assumes "linked s"
  shows "quiet sid (stopPaymentStream sid s)"
proof -
  have inact: "\<forall>x\<in>set (activeStreams (stopPaymentStream sid s)). id x = sid \<longrightarrow> \<not> isActive x"
    unfolding stop_streams by (auto simp: isActive_deactivate)
  have owner: "\<exists>x\<in>set (activeStreams s). id x = sid \<and> intervalId x = timerId t"
    if "t \<in> set (timers s)" "timerStream t = sid" for t
    using assms that unfolding linked_def by blast
  have tm: "timerStream t \<noteq> sid" if t: "t \<in> set (timers (stopPaymentStream sid s))" for t
  proof (cases "find (\<lambda>x. id x = sid) (activeStreams s)")
    case None
    with t have t0: "t \<in> set (timers s)" by (simp add: stop_timers)
    from find_id_None [OF None] owner [OF t0] show ?thesis by force
  next
    case (Some y)
    from find_id_mem [OF Some] have y: "y \<in> set (activeStreams s)" "id y = sid" by simp_all
    from assms y(1) have nz: "intervalId y \<noteq> 0" unfolding linked_def by blast
    from t Some nz have t0: "t \<in> set (timers s)" and ne: "timerId t \<noteq> intervalId y"
      by (simp_all add: stop_timers clearInterval_def)
    show ?thesis
    proof
      assume "timerStream t = sid"
      from owner [OF t0 this] obtain x where x: "x \<in> set (activeStreams s)" "id x = sid"
        "intervalId x = timerId t" by blast
      from assms have "distinct (map id (activeStreams s))" by (simp add: linked_def)
      from distinct_id_eq [OF this x(1) y(1)] x(2) y(2) have "x = y" by simp
      with x(3) ne show False by simp
    qed
  qed
  from inact tm show ?thesis unfolding quiet_def by blast
qed

text \<open>
  Claim C4, as stated, fails: a payment that is pending when the stream is stopped still
  lands. After start, first timer firing and stop the stream is inactive with
  \<open>totalSent = 0\<close>; when the pending payment then succeeds, \<open>totalSent\<close> becomes 8.
\<close>

theorem C4_counterexample:
  "map_option (\<lambda>s. map (\<lambda>x. (isActive x, totalSent x)) (activeStreams s))
     (run init [Start ''s1'' 0 (Fin 8) ''c'' (Fin 1), Fire 1, Stop ''s1'']) = Some [(False, Fin 0)] \<and>
   map_option (\<lambda>s. map (\<lambda>x. (isActive x, totalSent x)) (activeStreams s))
     (run init [Start ''s1'' 0 (Fin 8) ''c'' (Fin 1), Fire 1, Stop ''s1'', Settle ''s1'' (Fin 8) True])
     = Some [(False, Fin 8)]"
  by (simp add: init_def startPaymentStream_def tickBegin_def tickEnd_def addSent_def
      stopPaymentStream_def deactivate_def clearInterval_def fl_numeral)

text \<open>
  Claim C4, amended. Stop a stream in a state reached with pairwise different ids, and let
  anything happen afterwards except a new start under the same id. Then the stream has no
  timer any more (no new tick begins), it stays inactive, and the successful ticks reported
  against it after the stop are at most the payments that were pending at the stop. If none
  was pending, the stream is never changed again.
\<close>

theorem C4_after_stop:
  assumes "run init tr = Some s" and "distinct (startIds tr)"
    and "run (stopPaymentStream sid s) tr' = Some s'" and "sid \<notin> set (startIds tr')"
  shows "(\<forall>t\<in>set (timers s'). timerStream t \<noteq> sid) \<and>
         (\<forall>x\<in>set (activeStreams s'). id x = sid \<longrightarrow> \<not> isActive x) \<and>
         successCount sid tr' + pending sid s' \<le> pending sid s \<and>
         (pending sid s = 0 \<longrightarrow>
            filter (\<lambda>x. id x = sid) (activeStreams s')
              = filter (\<lambda>x. id x = sid) (activeStreams (stopPaymentStream sid s)))"
proof -
  from reach_inv [OF assms(1,2)] have "linked s" by simp
  then have q: "quiet sid (stopPaymentStream sid s)" by (rule stop_quiet)
  have p: "pending sid (stopPaymentStream sid s) = pending sid s"
    by (simp add: pending_def stopPaymentStream_def)
  from quiet_run [OF q assms(3,4)] p show ?thesis by (simp add: quiet_def)
qed

theorem C4_after_stop_witness:
  "run init [Start ''s1'' 0 (Fin 8) ''cause-1'' (Fin 10)] = Some demo_started \<and>
   distinct (startIds [Start ''s1'' 0 (Fin 8) ''cause-1'' (Fin 10)]) \<and>
   ''s1'' \<notin> set (startIds [Start ''s2'' 5 (Fin 3) ''cause-2'' (Fin 5), Fire 2, Settle ''s2'' (Fin 3) True,
                              Stop ''s1'']) \<and>
   pending ''s1'' demo_started = 0 \<and>
   (\<exists>s'. run (stopPaymentStream ''s1'' demo_started)
            [Start ''s2'' 5 (Fin 3) ''cause-2'' (Fin 5), Fire 2, Settle ''s2'' (Fin 3) True, Stop ''s1'']
          = Some s' \<and>
      (\<forall>t\<in>set (timers s'). timerStream t \<noteq> ''s1'') \<and>
      (\<forall>x\<in>set (activeStreams s'). id x = ''s1'' \<longrightarrow> \<not> isActive x) \<and>
      filter (\<lambda>x. id x = ''s1'') (activeStreams s')
        = filter (\<lambda>x. id x = ''s1'') (activeStreams (stopPaymentStream ''s1'' demo_started)))"
proof -
  have h1: "run init [Start ''s1'' 0 (Fin 8) ''cause-1'' (Fin 10)] = Some demo_started"
    by (simp add: demo_started_def)
  have h2: "distinct (startIds [Start ''s1'' 0 (Fin 8) ''cause-1'' (Fin 10)])" by simp
  have h4: "''s1'' \<notin> set (startIds [Start ''s2'' 5 (Fin 3) ''cause-2'' (Fin 5), Fire 2,
                Settle ''s2'' (Fin 3) True, Stop ''s1''])"
    by simp
  have p: "pending ''s1'' demo_started = 0"
    by (simp add: pending_def demo_started_def startPaymentStream_def init_def)
  have "\<exists>s'. run (stopPaymentStream ''s1'' demo_started)
            [Start ''s2'' 5 (Fin 3) ''cause-2'' (Fin 5), Fire 2, Settle ''s2'' (Fin 3) True, Stop ''s1'']
          = Some s'"
    by (simp add: demo_started_def init_def startPaymentStream_def stopPaymentStream_def
        clearInterval_def tickBegin_def)
  then obtain s' where h3: "run (stopPaymentStream ''s1'' demo_started)
            [Start ''s2'' 5 (Fin 3) ''cause-2'' (Fin 5), Fire 2, Settle ''s2'' (Fin 3) True, Stop ''s1'']
          = Some s'" ..
  from C4_after_stop [OF h1 h2 h3 h4] p h1 h2 h3 h4 show ?thesis by blast
qed

section \<open>Leaving the active state\<close>

lemma map_isActive_addSent: "map isActive (map (addSent sid amt) xs) = map isActive xs"
  by (induction xs) simp_all

lemma map_isActive_deactivate:
  "map isActive (map (deactivate sid) xs) = map (\<lambda>x. isActive x \<and> id x \<noteq> sid) xs"
  by (induction xs) (simp_all add: isActive_deactivate)

lemma step_keeps_active:
  assumes "step s e = Some s'" and "\<forall>sid. e \<noteq> Stop sid"
  shows "map isActive (take (length (activeStreams s)) (activeStreams s'))
           = map isActive (activeStreams s) \<and>
         (\<forall>x\<in>set (drop (length (activeStreams s)) (activeStreams s')). isActive x)"
  using step_streams [OF assms(1)] assms(2)
  by (cases e) (simp_all add: map_isActive_addSent)

lemma serve_stop_known:
  "map_of reg k = Some st \<Longrightarrow>
   serve reg (StopDonationStream k)
     = (AList.delete k reg,
        [(Everyone, DonationStreamCompleted (st\<lparr>dsStatus := completed\<rparr>)),
         (Sender, StreamStopped k completed)])"
  by simp

lemma serve_keeps_active:
  assumes "serve reg rq = (reg', out)" and "map_of reg k = Some st" and "dsStatus st = active"
  shows "(\<exists>st'. map_of reg' k = Some st' \<and> dsStatus st' = active) \<or>
         (rq = StopDonationStream k \<and> map_of reg' k = None \<and>
          out = [(Everyone, DonationStreamCompleted (st\<lparr>dsStatus := completed\<rparr>)),
                 (Sender, StreamStopped k completed)])"
proof (cases rq)
  case (StartDonationStream now sid dnr rcp amt cse)
  with assms show ?thesis by (auto simp: Let_def update_conv')
next
  case (StopDonationStream sid)
  show ?thesis
  proof (cases "sid = k")
    case True
    with assms StopDonationStream show ?thesis by (auto simp: delete_conv')
  next
    case False
    with assms StopDonationStream show ?thesis
      by (cases "map_of reg sid") (auto simp: delete_conv')
  qed
qed (use assms in auto)

lemma set_update_cases: "p \<in> set (AList.update k v al) \<Longrightarrow> p = (k, v) \<or> p \<in> set al"
  by (induction al) (auto split: if_splits)

lemma serve_all_active:
  assumes "\<forall>p\<in>set reg. dsStatus (snd p) = active"
  shows "\<forall>p\<in>set (fst (serve reg rq)). dsStatus (snd p) = active"
proof (cases rq)
  case (StartDonationStream now sid dnr rcp amt cse)
  with assms show ?thesis by (auto simp: Let_def dest!: set_update_cases)
next
  case (StopDonationStream sid)
  with assms show ?thesis
    by (cases "map_of reg sid") (auto simp: AList.delete_eq)
qed (use assms in auto)

lemma serveAll_all_active:
  "\<forall>p\<in>set reg. dsStatus (snd p) = active \<Longrightarrow>
   \<forall>p\<in>set (serveAll reg rqs). dsStatus (snd p) = active"
proof (induction rqs arbitrary: reg)
  case Nil
  then show ?case by simp
next
  case (Cons rq rqs)
  from serve_all_active [OF Cons.prems]
  have "\<forall>p\<in>set (fst (serve reg rq)). dsStatus (snd p) = active" .
  from Cons.IH [OF this] show ?case by simp
qed

text \<open>
  Claim C8, as stated, fails on the backend's registry: its stop handler marks the stream
  \<open>completed\<close> (the status type has no stopped value), announces it as completed and
  removes it.
\<close>

theorem C8_counterexample:
  "serve [(''s1'', demo_donation)] (StopDonationStream ''s1'')
     = ([], [(Everyone, DonationStreamCompleted (demo_donation\<lparr>dsStatus := completed\<rparr>)),
             (Sender, StreamStopped ''s1'' completed)]) \<and>
   dsStatus demo_donation = active"
  by (simp add: demo_donation_def AList.delete_eq)

text \<open>
  Claim C8, amended. In the hook a stream is active or not, and only \<open>stopPaymentStream\<close>
  takes a stream out of the active state: every other step keeps the active flag of every
  existing stream and a started stream is active, while a stop clears the flag of exactly
  the streams with the given id. In the backend's registry every entry is active, and
  whatever the server handles (a connection, a start, a stop, a donation event, an urgent
  need alert, a disconnect, the development timer), an active entry stays in the registry
  and active (a start under its id replaces it by a new active entry), with one exception:
  the stop request for its id, which marks the stream \<open>completed\<close>, not stopped, broadcasts
  it as completed and removes it. A stop request for an unknown id does nothing. So no
  stream leaves the active state by itself.
\<close>

theorem C8_only_stop_leaves_active:
  "(step s e = Some s' \<and> (\<forall>sid. e \<noteq> Stop sid) \<longrightarrow>
      map isActive (take (length (activeStreams s)) (activeStreams s'))
        = map isActive (activeStreams s) \<and>
      (\<forall>x\<in>set (drop (length (activeStreams s)) (activeStreams s')). isActive x)) \<and>
   map isActive (activeStreams (stopPaymentStream sid s))
     = map (\<lambda>x. isActive x \<and> id x \<noteq> sid) (activeStreams s) \<and>
   (serve reg rq = (reg', out) \<and> map_of reg k = Some st \<and> dsStatus st = active \<longrightarrow>
      (\<exists>st'. map_of reg' k = Some st' \<and> dsStatus st' = active) \<or>
      (rq = StopDonationStream k \<and> map_of reg' k = None \<and>
       out = [(Everyone, DonationStreamCompleted (st\<lparr>dsStatus := completed\<rparr>)),
              (Sender, StreamStopped k completed)])) \<and>
   (map_of reg k = Some st \<longrightarrow>
      serve reg (StopDonationStream k)
        = (AList.delete k reg,
           [(Everyone, DonationStreamCompleted (st\<lparr>dsStatus := completed\<rparr>)),
            (Sender, StreamStopped k completed)])) \<and>
   (map_of reg k = None \<longrightarrow> serve reg (StopDonationStream k) = (reg, [])) \<and>
   (p \<in> set (serveAll [] rqs) \<longrightarrow> dsStatus (snd p) = active)"
proof -
  have a: "step s e = Some s' \<and> (\<forall>sid. e \<noteq> Stop sid) \<longrightarrow>
      map isActive (take (length (activeStreams s)) (activeStreams s'))
        = map isActive (activeStreams s) \<and>
      (\<forall>x\<in>set (drop (length (activeStreams s)) (activeStreams s')). isActive x)"
    using step_keeps_active [of s e s'] by blast
  have b: "map isActive (activeStreams (stopPaymentStream sid s))
     = map (\<lambda>x. isActive x \<and> id x \<noteq> sid) (activeStreams s)"
    by (simp only: stop_streams map_isActive_deactivate)
  have c: "serve reg rq = (reg', out) \<and> map_of reg k = Some st \<and> dsStatus st = active \<longrightarrow>
      (\<exists>st'. map_of reg' k = Some st' \<and> dsStatus st' = active) \<or>
      (rq = StopDonationStream k \<and> map_of reg' k = None \<and>
       out = [(Everyone, DonationStreamCompleted (st\<lparr>dsStatus := completed\<rparr>)),
              (Sender, StreamStopped k completed)])"
    using serve_keeps_active [of reg rq reg' out k st] by blast
  have d: "map_of reg k = Some st \<longrightarrow>
      serve reg (StopDonationStream k)
        = (AList.delete k reg,
           [(Everyone, DonationStreamCompleted (st\<lparr>dsStatus := completed\<rparr>)),
            (Sender, StreamStopped k completed)])"
    using serve_stop_known [of reg k st] by blast
  have e: "map_of reg k = None \<longrightarrow> serve reg (StopDonationStream k) = (reg, [])"
    by simp
  have f: "p \<in> set (serveAll [] rqs) \<longrightarrow> dsStatus (snd p) = active"
    using serveAll_all_active [of "[]" rqs] by simp
  from a b c d e f show ?thesis by blast
qed

theorem C8_only_stop_leaves_active_witness:
  "step demo_pending (Settle ''s1'' (Fin 8) True)
     = Some (tickEnd ''s1'' (Fin 8) True demo_pending) \<and>
   (\<forall>sid. Settle ''s1'' (Fin 8) True \<noteq> Stop sid) \<and>
   map isActive (take (length (activeStreams demo_pending))
                   (activeStreams (tickEnd ''s1'' (Fin 8) True demo_pending)))
     = map isActive (activeStreams demo_pending) \<and>
   map isActive (activeStreams (stopPaymentStream ''s1'' demo_pending)) = [False] \<and>
   map_of [(''s1'', demo_donation)] ''s1'' = Some demo_donation \<and>
   dsStatus demo_donation = active \<and>
   serve [(''s1'', demo_donation)] (StartDonationStream 7 ''s1'' ''d2'' ''ngo'' (Fin 3) ''food'')
     = ([(''s1'', \<lparr>dsId = ''s1'', dsDonor = ''d2'', dsRecipient = ''ngo'', dsAmount = Fin 3,
                   dsCause = ''food'', dsStatus = active, dsStartTime = 7\<rparr>)],
        [(Everyone, NewDonationStream \<lparr>dsId = ''s1'', dsDonor = ''d2'', dsRecipient = ''ngo'',
            dsAmount = Fin 3, dsCause = ''food'', dsStatus = active, dsStartTime = 7\<rparr>),
         (Sender, StreamStarted ''s1'' active)]) \<and>
   serve [(''s1'', demo_donation)] (StopDonationStream ''s1'')
     = (AList.delete ''s1'' [(''s1'', demo_donation)],
        [(Everyone, DonationStreamCompleted (demo_donation\<lparr>dsStatus := completed\<rparr>)),
         (Sender, StreamStopped ''s1'' completed)]) \<and>
   map_of [] ''s1'' = (None :: DonationStream option) \<and>
   serve [] (StopDonationStream ''s1'') = ([], []) \<and>
   (''s1'', demo_donation) \<in> set (serveAll []
      [StartDonationStream 0 ''s1'' ''donor'' ''ngo'' (Fin 8) ''water'']) \<and>
   dsStatus (snd (''s1'', demo_donation)) = active"
proof -
  have h1: "step demo_pending (Settle ''s1'' (Fin 8) True)
     = Some (tickEnd ''s1'' (Fin 8) True demo_pending)"
    by (simp add: demo_pending_def tickBegin_def)
  have h2: "\<forall>sid. Settle ''s1'' (Fin 8) True \<noteq> Stop sid" by simp
  have h3: "map_of [(''s1'', demo_donation)] ''s1'' = Some demo_donation" by simp
  have h4: "dsStatus demo_donation = active" by (simp add: demo_donation_def)
  have h5: "serve [(''s1'', demo_donation)]
        (StartDonationStream 7 ''s1'' ''d2'' ''ngo'' (Fin 3) ''food'')
     = ([(''s1'', \<lparr>dsId = ''s1'', dsDonor = ''d2'', dsRecipient = ''ngo'', dsAmount = Fin 3,
                   dsCause = ''food'', dsStatus = active, dsStartTime = 7\<rparr>)],
        [(Everyone, NewDonationStream \<lparr>dsId = ''s1'', dsDonor = ''d2'', dsRecipient = ''ngo'',
            dsAmount = Fin 3, dsCause = ''food'', dsStatus = active, dsStartTime = 7\<rparr>),
         (Sender, StreamStarted ''s1'' active)])"
    by (simp add: Let_def)
  have h6: "(''s1'', demo_donation) \<in> set (serveAll []
      [StartDonationStream 0 ''s1'' ''donor'' ''ngo'' (Fin 8) ''water''])"
    by (simp add: demo_donation_def Let_def)
  have v: "map (\<lambda>x. isActive x \<and> id x \<noteq> ''s1'') (activeStreams demo_pending) = [False]"
    by (simp add: demo_pending_def tickBegin_def demo_started_def startPaymentStream_def
        init_def)
  note t1 = C8_only_stop_leaves_active [of demo_pending "Settle ''s1'' (Fin 8) True"
      "tickEnd ''s1'' (Fin 8) True demo_pending" "''s1''" "[(''s1'', demo_donation)]"
      "StartDonationStream 7 ''s1'' ''d2'' ''ngo'' (Fin 3) ''food''" _ _ "''s1''"
      demo_donation "(''s1'', demo_donation)"
      "[StartDonationStream 0 ''s1'' ''donor'' ''ngo'' (Fin 8) ''water'']"]
  note t2 = C8_only_stop_leaves_active [of demo_pending "Settle ''s1'' (Fin 8) True"
      "tickEnd ''s1'' (Fin 8) True demo_pending" "''s1''" "[]"
      "StopDonationStream ''s1''" _ _ "''s1''"
      demo_donation "(''s1'', demo_donation)"
      "[StartDonationStream 0 ''s1'' ''donor'' ''ngo'' (Fin 8) ''water'']"]
  have c1: "map isActive (take (length (activeStreams demo_pending))
                   (activeStreams (tickEnd ''s1'' (Fin 8) True demo_pending)))
     = map isActive (activeStreams demo_pending)"
    using t1 h1 h2 by blast
  have c2: "map isActive (activeStreams (stopPaymentStream ''s1'' demo_pending)) = [False]"
    using t1 v by simp
  have c3: "serve [(''s1'', demo_donation)] (StopDonationStream ''s1'')
     = (AList.delete ''s1'' [(''s1'', demo_donation)],
        [(Everyone, DonationStreamCompleted (demo_donation\<lparr>dsStatus := completed\<rparr>)),
         (Sender, StreamStopped ''s1'' completed)])"
    using t1 h3 by blast
  have c4: "serve [] (StopDonationStream ''s1'') = ([], [])"
    using t2 by simp
  have c5: "dsStatus (snd (''s1'', demo_donation)) = active"
    using t1 h6 by blast
  from h1 h2 h3 h4 h5 h6 c1 c2 c3 c4 c5 show ?thesis by simp
qed

section \<open>Statistics\<close>





end
